theory Spec2Isabelle
  imports Main "HOL-Library.Word" "HOL-Library.Sublist"
begin

section \<open>The effect-store runtime of packages/react/runtime/src/index.ts\<close>

text \<open>
  The runtime keeps one module-level register, \<open>currentStore\<close>, and one effect store per
  component or hook instance. An effect store is a JavaScript object whose methods close
  over six local variables; here it is a record of those variables, kept in a heap (a list
  indexed by the store's reference), so that \<open>currentStore\<close> and \<open>prevStore\<close> can refer to
  stores the way the object references of the source do.

  Everything the module calls but does not define (the effects of the signals library, the
  host's change callback, the host's store hook) is opaque: each such call is appended to
  a log, in the order the source makes it.
\<close>

subsection \<open>Data\<close>

datatype EffectStoreUsage = UNMANAGED | MANAGED_COMPONENT | MANAGED_HOOK

type_synonym store_ref = nat
type_synonym host_callback = nat

text \<open>
  The calls into external code. \<open>EffectCreate i\<close> is \<open>effect(...)\<close> in the constructor of
  store \<open>i\<close>, \<open>EffectStart i\<close> is \<open>effectInstance._start()\<close>, \<open>EffectEnd i\<close> is a call of
  the closer that \<open>effectInstance._start()\<close> returned, \<open>EffectDispose i\<close> is a call of
  the disposer that \<open>effect(...)\<close> returned, \<open>NotifyReact cb\<close> is a call of the host's
  \<open>onStoreChange\<close> callback \<open>cb\<close>, and \<open>SyncExternalStore i\<close> is the call of
  \<open>useSyncExternalStore\<close> with the methods of store \<open>i\<close>.
\<close>

datatype event =
    EffectCreate store_ref
  | EffectStart store_ref
  | EffectEnd store_ref
  | EffectDispose store_ref
  | NotifyReact host_callback
  | SyncExternalStore store_ref

text \<open>
  The closure variables of \<open>createEffectStore\<close>. \<open>version\<close> only ever holds the result
  of \<open>(version + 1) | 0\<close>, a signed 32-bit integer: it is a 32-bit word, read as a signed
  number by \<open>getSnapshot\<close>. \<open>endEffect\<close> holds the closer of the store's own effect,
  named by the effect's store.
\<close>

record EffectStore =
  usage :: EffectStoreUsage
  version :: "32 word"
  onChangeNotifyReact :: "host_callback option"
  doRestore :: bool
  prevStore :: "store_ref option"
  endEffect :: "store_ref option"

text \<open>
  The module state: the heap of stores, the register \<open>currentStore\<close>, \<open>finalCleanup\<close>
  (whether the promise of the cleanup microtask is set), the number of cleanup callbacks
  waiting in the microtask queue, and the log of external calls.
\<close>

record runtime =
  stores :: "EffectStore list"
  currentStore :: "store_ref option"
  finalCleanup :: bool
  microtasks :: nat
  trace :: "event list"

definition init :: runtime where
  "init = \<lparr>stores = [], currentStore = None, finalCleanup = False, microtasks = 0, trace = []\<rparr>"

text \<open>
  A reference of the source always denotes an existing object. A reference outside the
  heap is not a state of the program; every operation below leaves the state as it is
  there.
\<close>

definition store_at :: "runtime \<Rightarrow> store_ref \<Rightarrow> EffectStore option" where
  "store_at s i = (if i < length (stores s) then Some (stores s ! i) else None)"

definition put_store :: "store_ref \<Rightarrow> EffectStore \<Rightarrow> runtime \<Rightarrow> runtime" where
  "put_store i st s = s\<lparr>stores := (stores s)[i := st]\<rparr>"

definition emit :: "event \<Rightarrow> runtime \<Rightarrow> runtime" where
  "emit e s = s\<lparr>trace := trace s @ [e]\<rparr>"

subsection \<open>createEffectStore and the host subscription methods\<close>

definition createEffectStore :: "EffectStoreUsage \<Rightarrow> runtime \<Rightarrow> store_ref \<times> runtime" where
  "createEffectStore u s =
     (let i = length (stores s);
          st = \<lparr>usage = u, version = 0, onChangeNotifyReact = None,
                doRestore = False, prevStore = None, endEffect = None\<rparr>
      in (i, emit (EffectCreate i) (s\<lparr>stores := stores s @ [st]\<rparr>)))"

text \<open>\<open>effectInstance._callback\<close>: the signals library calls it when a recorded source changed.\<close>

definition callback :: "store_ref \<Rightarrow> runtime \<Rightarrow> runtime" where
  "callback i s =
     (case store_at s i of
        None \<Rightarrow> s
      | Some st \<Rightarrow>
          let s1 = put_store i (st\<lparr>version := version st + 1\<rparr>) s
          in (case onChangeNotifyReact st of
                None \<Rightarrow> s1
              | Some cb \<Rightarrow> emit (NotifyReact cb) s1))"

definition subscribe :: "store_ref \<Rightarrow> host_callback \<Rightarrow> runtime \<Rightarrow> runtime" where
  "subscribe i onStoreChange s =
     (case store_at s i of
        None \<Rightarrow> s
      | Some st \<Rightarrow> put_store i (st\<lparr>onChangeNotifyReact := Some onStoreChange\<rparr>) s)"

text \<open>The function that \<open>subscribe\<close> returns; its last statement calls the effect's disposer.\<close>

definition unsubscribe :: "store_ref \<Rightarrow> runtime \<Rightarrow> runtime" where
  "unsubscribe i s =
     (case store_at s i of
        None \<Rightarrow> s
      | Some st \<Rightarrow>
          emit (EffectDispose i)
            (put_store i (st\<lparr>version := version st + 1, onChangeNotifyReact := None\<rparr>) s))"

definition getSnapshot :: "EffectStore \<Rightarrow> int" where
  "getSnapshot st = sint (version st)"

subsection \<open>The register: start and finish\<close>

text \<open>\<open>f\<close>, the finish method.\<close>

definition f :: "store_ref \<Rightarrow> runtime \<Rightarrow> runtime" where
  "f i s =
     (case store_at s i of
        None \<Rightarrow> s
      | Some st \<Rightarrow>
          let s1 = (case endEffect st of None \<Rightarrow> s | Some e \<Rightarrow> emit (EffectEnd e) s);
              s2 = (if doRestore st then s1\<lparr>currentStore := prevStore st\<rparr> else s1)
          in put_store i (st\<lparr>prevStore := None, endEffect := None, doRestore := False\<rparr>) s2)"

text \<open>
  The four statements that three branches of \<open>_start\<close> share: \<open>doRestore = true\<close>,
  \<open>prevStore = p\<close>, \<open>endEffect = effectInstance._start()\<close>, \<open>currentStore = this\<close>.
\<close>

definition track :: "store_ref \<Rightarrow> store_ref option \<Rightarrow> runtime \<Rightarrow> runtime" where
  "track i p s =
     (case store_at s i of
        None \<Rightarrow> s
      | Some st \<Rightarrow>
          (emit (EffectStart i)
             (put_store i (st\<lparr>doRestore := True, prevStore := p, endEffect := Some i\<rparr>) s))
          \<lparr>currentStore := Some i\<rparr>)"

text \<open>\<open>_start\<close>, the start method.\<close>

definition start :: "store_ref \<Rightarrow> runtime \<Rightarrow> runtime" where
  "start i s =
     (case store_at s i of
        None \<Rightarrow> s
      | Some this \<Rightarrow>
          (case currentStore s of
             None \<Rightarrow> track i None s
           | Some c \<Rightarrow>
               (case store_at s c of
                  None \<Rightarrow> s
                | Some cur \<Rightarrow>
                    let prevUsage = usage cur; thisUsage = usage this in
                    if (prevUsage = UNMANAGED \<and> thisUsage = UNMANAGED) \<or>
                       (prevUsage = UNMANAGED \<and> thisUsage = MANAGED_COMPONENT)
                    then track i None (f c s)
                    else if (prevUsage = MANAGED_COMPONENT \<and> thisUsage = UNMANAGED) \<or>
                            (prevUsage = MANAGED_HOOK \<and> thisUsage = UNMANAGED)
                    then s
                    else track i (Some c) s)))"

subsection \<open>The cleanup microtask and useSignals\<close>

definition ensureFinalCleanup :: "runtime \<Rightarrow> runtime" where
  "ensureFinalCleanup s =
     (if \<not> finalCleanup s
      then s\<lparr>finalCleanup := True, microtasks := Suc (microtasks s)\<rparr>
      else s)"

text \<open>The callback that \<open>ensureFinalCleanup\<close> queues.\<close>

definition cleanup_callback :: "runtime \<Rightarrow> runtime" where
  "cleanup_callback s =
     (let s1 = s\<lparr>finalCleanup := False\<rparr>
      in (case currentStore s1 of None \<Rightarrow> s1 | Some c \<Rightarrow> f c s1))"

text \<open>The microtask queue runs one waiting cleanup callback; with none waiting nothing runs.\<close>

definition run_microtask :: "runtime \<Rightarrow> runtime" where
  "run_microtask s =
     (if microtasks s = 0 then s
      else cleanup_callback (s\<lparr>microtasks := microtasks s - 1\<rparr>))"

text \<open>
  \<open>useSignals\<close>. The host's \<open>useRef\<close> slot is the argument \<open>storeRef\<close>: \<open>None\<close> on the
  first call of an instance, the store created then on every later one.
\<close>

definition useSignals :: "store_ref option \<Rightarrow> EffectStoreUsage \<Rightarrow> runtime \<Rightarrow> store_ref \<times> runtime" where
  "useSignals storeRef u s =
     (let s1 = ensureFinalCleanup s;
          (i, s2) = (case storeRef of None \<Rightarrow> createEffectStore u s1 | Some r \<Rightarrow> (r, s1))
      in (i, start i (emit (SyncExternalStore i) s2)))"

subsection \<open>Sequences of calls\<close>

datatype op =
    Create EffectStoreUsage
  | Subscribe store_ref host_callback
  | Unsubscribe store_ref
  | Callback store_ref
  | Start store_ref
  | Finish store_ref
  | UseSignals "store_ref option" EffectStoreUsage
  | Microtask

fun step :: "op \<Rightarrow> runtime \<Rightarrow> runtime" where
  "step (Create u) s = snd (createEffectStore u s)"
| "step (Subscribe i cb) s = subscribe i cb s"
| "step (Unsubscribe i) s = unsubscribe i s"
| "step (Callback i) s = callback i s"
| "step (Start i) s = start i s"
| "step (Finish i) s = f i s"
| "step (UseSignals r u) s = snd (useSignals r u s)"
| "step Microtask s = run_microtask s"

fun run :: "op list \<Rightarrow> runtime \<Rightarrow> runtime" where
  "run [] s = s"
| "run (x # xs) s = run xs (step x s)"

subsection \<open>Stores with no unfinished start\<close>

text \<open>
  The bookkeeping variables of a store as \<open>createEffectStore\<close> initialises them and as
  \<open>f\<close> leaves them: the store has no start that is waiting for its finish.
\<close>

definition idle :: "EffectStore \<Rightarrow> bool" where
  "idle st \<longleftrightarrow> \<not> doRestore st \<and> prevStore st = None \<and> endEffect st = None"

definition idle_at :: "runtime \<Rightarrow> store_ref \<Rightarrow> bool" where
  "idle_at s i = (case store_at s i of None \<Rightarrow> False | Some st \<Rightarrow> idle st)"

text \<open>
  The promise variable and the microtask queue agree: one callback waits exactly when
  \<open>finalCleanup\<close> is set.
\<close>

definition reaper_ok :: "runtime \<Rightarrow> bool" where
  "reaper_ok s \<longleftrightarrow> microtasks s = (if finalCleanup s then 1 else 0)"

subsection \<open>Which effect records a read\<close>

text \<open>
  Modelled from the spec: the Tracking Effect and the Reactive Source are the signals
  library, which is not part of these sources. The spec says of them that a Tracking
  Effect, once started, "records every Reactive Source read until it is stopped", that
  starting it returns the closer that stops it, and that "reads are always attributed to
  the innermost scope active at the time of the read". So the effects that are recording
  are those that the log shows started and not yet ended, innermost first, and a read
  goes to the first of them.
\<close>

fun recording_step :: "store_ref list \<Rightarrow> event \<Rightarrow> store_ref list" where
  "recording_step stk (EffectStart i) = i # stk"
| "recording_step stk (EffectEnd i) = remove1 i stk"
| "recording_step stk _ = stk"

definition recording :: "event list \<Rightarrow> store_ref list" where
  "recording tr = foldl recording_step [] tr"

definition attributed :: "runtime \<Rightarrow> store_ref option" where
  "attributed s = (case recording (trace s) of [] \<Rightarrow> None | i # _ \<Rightarrow> Some i)"

subsection \<open>The nesting discipline of section 4.2\<close>

text \<open>
  The spec's transition table, on a call stack. The stack lists the scopes that are
  tracking, innermost first. \<open>modes\<close> gives the usage mode of every store.
  A start of \<open>n\<close> over the innermost scope \<open>c\<close>: with \<open>c\<close> Unmanaged and \<open>n\<close> Unmanaged or
  ManagedComponent, \<open>c\<close> is finished and \<open>n\<close> tracks with nothing to restore (an
  Unmanaged scope only ever tracks at the bottom of the stack); with \<open>c\<close>
  managed and \<open>n\<close> Unmanaged, \<open>n\<close> is folded into \<open>c\<close> and the stack stays; otherwise \<open>n\<close>
  is pushed, and it must not be on the stack already (a scope is not started again
  before it is finished). A finish of the innermost scope pops it; a finish of a scope
  that is not on the stack (never started, folded, or finished already) does nothing; a
  finish of a scope deeper in the stack is out of order and not permitted.
\<close>

definition top :: "store_ref list \<Rightarrow> store_ref option" where
  "top stk = (case stk of [] \<Rightarrow> None | n # _ \<Rightarrow> Some n)"

fun nested_start :: "EffectStoreUsage list \<Rightarrow> store_ref \<Rightarrow> store_ref list \<Rightarrow> store_ref list option" where
  "nested_start modes n [] = (if n < length modes then Some [n] else None)"
| "nested_start modes n (c # stk) =
     (if \<not> (n < length modes \<and> c < length modes) then None
      else if modes ! c = UNMANAGED \<and> (modes ! n = UNMANAGED \<or> modes ! n = MANAGED_COMPONENT)
      then Some [n]
      else if (modes ! c = MANAGED_COMPONENT \<or> modes ! c = MANAGED_HOOK) \<and> modes ! n = UNMANAGED
      then Some (c # stk)
      else if n = c \<or> n \<in> set stk then None
      else Some (n # c # stk))"

fun nested_finish :: "store_ref \<Rightarrow> store_ref list \<Rightarrow> store_ref list option" where
  "nested_finish n [] = Some []"
| "nested_finish n (c # stk) =
     (if n = c then Some stk else if n \<in> set stk then None else Some (c # stk))"

fun nested_step :: "EffectStoreUsage list \<Rightarrow> op \<Rightarrow> store_ref list \<Rightarrow> store_ref list option" where
  "nested_step modes (Start n) stk = nested_start modes n stk"
| "nested_step modes (Finish n) stk = nested_finish n stk"
| "nested_step modes _ stk = None"

fun nested_run :: "EffectStoreUsage list \<Rightarrow> op list \<Rightarrow> store_ref list \<Rightarrow> store_ref list option" where
  "nested_run modes [] stk = Some stk"
| "nested_run modes (x # xs) stk =
     (case nested_step modes x stk of None \<Rightarrow> None | Some stk' \<Rightarrow> nested_run modes xs stk')"

text \<open>
  The calls of code that closes every scope where it opened it: \<open>pend\<close> is the stack
  of the scopes started and not finished, every finish is of the scope started last, and
  no scope on it is started again. \<open>bound\<close> is the number of stores.
\<close>

fun well_bracketed :: "nat \<Rightarrow> op list \<Rightarrow> store_ref list \<Rightarrow> bool" where
  "well_bracketed bound [] pend = True"
| "well_bracketed bound (Start n # xs) pend =
     (n < bound \<and> n \<notin> set pend \<and> well_bracketed bound xs (n # pend))"
| "well_bracketed bound (Finish n # xs) pend =
     (case pend of [] \<Rightarrow> False | p # ps \<Rightarrow> n = p \<and> well_bracketed bound xs ps)"
| "well_bracketed bound (_ # xs) pend = False"

text \<open>
  What may happen between the acquisition of a scope and the cleanup microtask, in one
  synchronous turn. \<open>quiet\<close> operations touch neither the register nor the bookkeeping
  of any store. \<open>turn_step\<close> follows the usage modes of the stores and the stack of
  tracking scopes through a turn in which stores are created, subscribed, unsubscribed
  and notified, and scopes are started (directly or by \<open>useSignals\<close>) and finished under
  the discipline above; the microtask itself is not part of the turn.
\<close>

fun quiet :: "op \<Rightarrow> bool" where
  "quiet (Create u) = True"
| "quiet (Subscribe i cb) = True"
| "quiet (Unsubscribe i) = True"
| "quiet (Callback i) = True"
| "quiet _ = False"

fun turn_step ::
  "op \<Rightarrow> EffectStoreUsage list \<times> store_ref list \<Rightarrow> (EffectStoreUsage list \<times> store_ref list) option" where
  "turn_step (Create u) (modes, stk) = Some (modes @ [u], stk)"
| "turn_step (Subscribe i cb) (modes, stk) = Some (modes, stk)"
| "turn_step (Unsubscribe i) (modes, stk) = Some (modes, stk)"
| "turn_step (Callback i) (modes, stk) = Some (modes, stk)"
| "turn_step (Start n) (modes, stk) = map_option (Pair modes) (nested_start modes n stk)"
| "turn_step (Finish n) (modes, stk) = map_option (Pair modes) (nested_finish n stk)"
| "turn_step (UseSignals None u) (modes, stk) =
     map_option (Pair (modes @ [u])) (nested_start (modes @ [u]) (length modes) stk)"
| "turn_step (UseSignals (Some i) u) (modes, stk) =
     map_option (Pair modes) (nested_start modes i stk)"
| "turn_step Microtask (modes, stk) = None"

fun turn_run ::
  "op list \<Rightarrow> EffectStoreUsage list \<times> store_ref list \<Rightarrow> (EffectStoreUsage list \<times> store_ref list) option" where
  "turn_run [] c = Some c"
| "turn_run (x # xs) c = (case turn_step x c of None \<Rightarrow> None | Some c' \<Rightarrow> turn_run xs c')"

text \<open>A state in which no scope is started: the register is empty and nothing records.\<close>

definition fresh :: "runtime \<Rightarrow> bool" where
  "fresh s \<longleftrightarrow> currentStore s = None \<and> list_all idle (stores s) \<and> recording (trace s) = []"

text \<open>
  How the stores hold a stack: each scope on it has its restore flag set and its closer
  stored, its \<open>prevStore\<close> is the scope below it, and only the bottom scope may be
  Unmanaged.
\<close>

fun linked :: "EffectStore list \<Rightarrow> store_ref list \<Rightarrow> bool" where
  "linked ss [] = True"
| "linked ss (n # stk) =
     (n < length ss \<and> doRestore (ss ! n) \<and> endEffect (ss ! n) = Some n \<and>
      prevStore (ss ! n) = top stk \<and> (stk \<noteq> [] \<longrightarrow> usage (ss ! n) \<noteq> UNMANAGED) \<and>
      linked ss stk)"

definition coupled :: "runtime \<Rightarrow> store_ref list \<Rightarrow> bool" where
  "coupled s stk \<longleftrightarrow>
     distinct stk \<and> linked (stores s) stk \<and>
     (\<forall>i < length (stores s). i \<notin> set stk \<longrightarrow> idle (stores s ! i)) \<and>
     currentStore s = top stk \<and> recording (trace s) = stk"

section \<open>Basic facts about the heap\<close>

lemma store_at_put_store:
  "store_at (put_store i st s) j =
     (if j < length (stores s) then Some (if j = i then st else stores s ! j) else None)"
  by (simp add: store_at_def put_store_def)

lemma store_at_emit [simp]: "store_at (emit e s) j = store_at s j"
  by (simp add: store_at_def emit_def)

lemma store_at_currentStore_update [simp]:
  "store_at (s\<lparr>currentStore := c\<rparr>) j = store_at s j"
  by (simp add: store_at_def)

lemma store_at_SomeD: "store_at s i = Some st \<Longrightarrow> i < length (stores s) \<and> stores s ! i = st"
  by (auto simp: store_at_def split: if_splits)



lemma put_store_simps [simp]:
  "currentStore (put_store i st s) = currentStore s"
  "trace (put_store i st s) = trace s"
  "finalCleanup (put_store i st s) = finalCleanup s"
  "microtasks (put_store i st s) = microtasks s"
  "length (stores (put_store i st s)) = length (stores s)"
  by (simp_all add: put_store_def)

lemma emit_simps [simp]:
  "currentStore (emit e s) = currentStore s"
  "trace (emit e s) = trace s @ [e]"
  "finalCleanup (emit e s) = finalCleanup s"
  "microtasks (emit e s) = microtasks s"
  "stores (emit e s) = stores s"
  by (simp_all add: emit_def)

lemma store_at_put_same:
  "store_at s i = Some st0 \<Longrightarrow> store_at (put_store i st s) i = Some st"
  by (simp add: store_at_def put_store_def split: if_splits)

lemma store_at_put_other:
  "j \<noteq> i \<Longrightarrow> store_at (put_store i st s) j = store_at s j"
  by (simp add: store_at_def put_store_def)

lemma store_at_cong_stores: "stores s' = stores s \<Longrightarrow> store_at s' j = store_at s j"
  by (simp add: store_at_def)

lemma put_store_id: "store_at s i = Some st \<Longrightarrow> put_store i st s = s"
  by (auto simp: store_at_def put_store_def split: if_splits)

lemma idle_update_id: "idle st \<Longrightarrow> st\<lparr>prevStore := None, endEffect := None, doRestore := False\<rparr> = st"
  by (simp add: idle_def)

lemma f_idle:
  assumes "store_at s i = Some st" and "idle st"
  shows "f i s = s"
proof -
  from assms(2) have "\<not> doRestore st" "endEffect st = None" by (simp_all add: idle_def)
  then have "f i s = put_store i (st\<lparr>prevStore := None, endEffect := None, doRestore := False\<rparr>) s"
    using assms(1) by (simp add: f_def Let_def)
  then show ?thesis
    using assms by (simp add: idle_update_id put_store_id)
qed

lemma f_Some:
  "store_at s i = Some st \<Longrightarrow>
   f i s = put_store i (st\<lparr>prevStore := None, endEffect := None, doRestore := False\<rparr>)
     ((if doRestore st then (\<lambda>t. t\<lparr>currentStore := prevStore st\<rparr>) else id)
       ((case endEffect st of None \<Rightarrow> id | Some e \<Rightarrow> emit (EffectEnd e)) s))"
  by (simp add: f_def Let_def split: option.splits)

lemma store_at_f_same:
  "store_at s i = Some st \<Longrightarrow>
   store_at (f i s) i = Some (st\<lparr>prevStore := None, endEffect := None, doRestore := False\<rparr>)"
  by (simp add: f_def Let_def store_at_put_same split: option.splits)

lemma store_at_f_other: "j \<noteq> i \<Longrightarrow> store_at (f i s) j = store_at s j"
  by (simp add: f_def Let_def store_at_put_other split: option.splits)

lemma f_f: "f i (f i s) = f i s"
proof (cases "store_at s i")
  case None
  then show ?thesis by (simp add: f_def)
next
  case (Some st)
  have "idle (st\<lparr>prevStore := None, endEffect := None, doRestore := False\<rparr>)"
    by (simp add: idle_def)
  then show ?thesis using store_at_f_same [OF Some] by (rule f_idle [rotated])
qed

lemma track_Some:
  "store_at s i = Some st \<Longrightarrow>
   track i p s = (emit (EffectStart i)
       (put_store i (st\<lparr>doRestore := True, prevStore := p, endEffect := Some i\<rparr>) s))
     \<lparr>currentStore := Some i\<rparr>"
  by (simp add: track_def)

lemma track_facts:
  assumes "store_at s i = Some st"
  shows "currentStore (track i p s) = Some i"
    and "trace (track i p s) = trace s @ [EffectStart i]"
    and "store_at (track i p s) i = Some (st\<lparr>doRestore := True, prevStore := p, endEffect := Some i\<rparr>)"
    and "j \<noteq> i \<Longrightarrow> store_at (track i p s) j = store_at s j"
    and "finalCleanup (track i p s) = finalCleanup s"
    and "microtasks (track i p s) = microtasks s"
  using assms by (simp_all add: track_Some store_at_put_same store_at_put_other)

lemma f_facts:
  assumes "store_at s i = Some st"
  shows "currentStore (f i s) = (if doRestore st then prevStore st else currentStore s)"
    and "trace (f i s) = trace s @ (case endEffect st of None \<Rightarrow> [] | Some e \<Rightarrow> [EffectEnd e])"
    and "finalCleanup (f i s) = finalCleanup s"
    and "microtasks (f i s) = microtasks s"
  using assms by (simp_all add: f_Some split: option.splits)

lemma start_empty:
  "store_at s n = Some this \<Longrightarrow> currentStore s = None \<Longrightarrow> start n s = track n None s"
  by (simp add: start_def)

lemma start_finish_first:
  "store_at s n = Some this \<Longrightarrow> currentStore s = Some c \<Longrightarrow> store_at s c = Some cur \<Longrightarrow>
   usage cur = UNMANAGED \<Longrightarrow> usage this = UNMANAGED \<or> usage this = MANAGED_COMPONENT \<Longrightarrow>
   start n s = track n None (f c s)"
  by (auto simp: start_def Let_def)

lemma start_fold:
  "store_at s n = Some this \<Longrightarrow> currentStore s = Some c \<Longrightarrow> store_at s c = Some cur \<Longrightarrow>
   usage cur = MANAGED_COMPONENT \<or> usage cur = MANAGED_HOOK \<Longrightarrow> usage this = UNMANAGED \<Longrightarrow>
   start n s = s"
  by (auto simp: start_def Let_def)

lemma start_nested:
  "store_at s n = Some this \<Longrightarrow> currentStore s = Some c \<Longrightarrow> store_at s c = Some cur \<Longrightarrow>
   (usage cur, usage this) \<notin> {(UNMANAGED, UNMANAGED), (UNMANAGED, MANAGED_COMPONENT),
      (MANAGED_COMPONENT, UNMANAGED), (MANAGED_HOOK, UNMANAGED)} \<Longrightarrow>
   start n s = track n (Some c) s"
  by (auto simp: start_def Let_def)

text \<open>Unfolding the operations on a concrete state.\<close>

lemmas runtime_eval =
  init_def store_at_def put_store_def emit_def createEffectStore_def callback_def
  subscribe_def unsubscribe_def getSnapshot_def f_def track_def start_def
  ensureFinalCleanup_def cleanup_callback_def run_microtask_def useSignals_def Let_def
  idle_def idle_at_def reaper_ok_def

section \<open>The transitions of start and finish\<close>

text \<open>
  Claim C2. Let scope \<open>n\<close> start while scope \<open>c\<close> is in the register, the pair of
  usage modes being none of (Unmanaged, Unmanaged), (Unmanaged, ManagedComponent),
  (ManagedComponent, Unmanaged), (ManagedHook, Unmanaged). Then \<open>n\<close> records \<open>c\<close> as its
  saved previous scope, begins tracking and becomes the register's scope; and whenever
  \<open>n\<close> is finished with that bookkeeping still in place, its tracking is stopped, \<open>c\<close> is
  back in the register and \<open>n\<close> has no unfinished start left. When \<open>n\<close> starts with
  the register empty it records no previous scope, and its finish leaves the register
  empty.
\<close>

theorem nested_start_saves_and_finish_restores:
  assumes n: "store_at s n = Some this"
  shows "(\<forall>c cur. currentStore s = Some c \<longrightarrow> store_at s c = Some cur \<longrightarrow>
            (usage cur, usage this) \<notin> {(UNMANAGED, UNMANAGED), (UNMANAGED, MANAGED_COMPONENT),
               (MANAGED_COMPONENT, UNMANAGED), (MANAGED_HOOK, UNMANAGED)} \<longrightarrow>
            currentStore (start n s) = Some n \<and>
            store_at (start n s) n =
              Some (this\<lparr>doRestore := True, prevStore := Some c, endEffect := Some n\<rparr>) \<and>
            trace (start n s) = trace s @ [EffectStart n] \<and>
            (\<forall>s'. store_at s' n = store_at (start n s) n \<longrightarrow>
               currentStore (f n s') = Some c \<and> trace (f n s') = trace s' @ [EffectEnd n] \<and>
               (\<exists>st'. store_at (f n s') n = Some st' \<and> idle st')))
       \<and> (currentStore s = None \<longrightarrow>
            currentStore (start n s) = Some n \<and>
            store_at (start n s) n =
              Some (this\<lparr>doRestore := True, prevStore := None, endEffect := Some n\<rparr>) \<and>
            (\<forall>s'. store_at s' n = store_at (start n s) n \<longrightarrow>
               currentStore (f n s') = None \<and> trace (f n s') = trace s' @ [EffectEnd n]))"
proof (intro conjI allI impI)
  fix c cur
  assume c: "currentStore s = Some c" "store_at s c = Some cur"
    and u: "(usage cur, usage this) \<notin> {(UNMANAGED, UNMANAGED), (UNMANAGED, MANAGED_COMPONENT),
               (MANAGED_COMPONENT, UNMANAGED), (MANAGED_HOOK, UNMANAGED)}"
  have st: "start n s = track n (Some c) s"
    using n c u by (rule start_nested)
  show "currentStore (start n s) = Some n"
    by (simp add: st track_facts(1) [OF n])
  show sn: "store_at (start n s) n =
      Some (this\<lparr>doRestore := True, prevStore := Some c, endEffect := Some n\<rparr>)"
    by (simp add: st track_facts(3) [OF n])
  show "trace (start n s) = trace s @ [EffectStart n]"
    by (simp add: st track_facts(2) [OF n])
  fix s' assume "store_at s' n = store_at (start n s) n"
  with sn have s': "store_at s' n =
      Some (this\<lparr>doRestore := True, prevStore := Some c, endEffect := Some n\<rparr>)" by simp
  show "currentStore (f n s') = Some c"
    by (simp add: f_facts(1) [OF s'])
  show "trace (f n s') = trace s' @ [EffectEnd n]"
    by (simp add: f_facts(2) [OF s'])
  show "\<exists>st'. store_at (f n s') n = Some st' \<and> idle st'"
    by (simp add: store_at_f_same [OF s'] idle_def)
next
  assume e: "currentStore s = None"
  have st: "start n s = track n None s"
    using n e by (rule start_empty)
  show "currentStore (start n s) = Some n"
    by (simp add: st track_facts(1) [OF n])
  show sn: "store_at (start n s) n =
      Some (this\<lparr>doRestore := True, prevStore := None, endEffect := Some n\<rparr>)"
    by (simp add: st track_facts(3) [OF n])
  fix s' assume "store_at s' n = store_at (start n s) n"
  with sn have s': "store_at s' n =
      Some (this\<lparr>doRestore := True, prevStore := None, endEffect := Some n\<rparr>)" by simp
  show "currentStore (f n s') = None"
    by (simp add: f_facts(1) [OF s'])
  show "trace (f n s') = trace s' @ [EffectEnd n]"
    by (simp add: f_facts(2) [OF s'])
qed


text \<open>
  A hook store started inside a component store and finished again; and a store started
  and finished with the register empty.
\<close>

theorem nested_start_saves_and_finish_restores_witness:
  "store_at (run [Create MANAGED_COMPONENT, Create MANAGED_HOOK, Start 0] init) 1 =
     Some \<lparr>usage = MANAGED_HOOK, version = 0, onChangeNotifyReact = None,
           doRestore = False, prevStore = None, endEffect = None\<rparr> \<and>
   currentStore (run [Create MANAGED_COMPONENT, Create MANAGED_HOOK, Start 0] init) = Some 0 \<and>
   currentStore (run [Create MANAGED_COMPONENT, Create MANAGED_HOOK, Start 0, Start 1] init) = Some 1 \<and>
   currentStore (run [Create MANAGED_COMPONENT, Create MANAGED_HOOK, Start 0, Start 1, Finish 1] init)
     = Some 0 \<and>
   currentStore (run [Create MANAGED_HOOK] init) = None \<and>
   currentStore (run [Create MANAGED_HOOK, Start 0, Finish 0] init) = None"
proof -
  let ?s = "run [Create MANAGED_COMPONENT, Create MANAGED_HOOK, Start 0] init"
  let ?new = "\<lparr>usage = MANAGED_HOOK, version = 0, onChangeNotifyReact = None,
           doRestore = False, prevStore = None, endEffect = None\<rparr>"
  let ?cur = "\<lparr>usage = MANAGED_COMPONENT, version = 0, onChangeNotifyReact = None,
           doRestore = True, prevStore = None, endEffect = Some 0\<rparr>"
  have n: "store_at ?s 1 = Some ?new" by (simp add: runtime_eval)
  have c: "currentStore ?s = Some 0" "store_at ?s 0 = Some ?cur" by (simp_all add: runtime_eval)
  have u: "(usage ?cur, usage ?new) \<notin> {(UNMANAGED, UNMANAGED), (UNMANAGED, MANAGED_COMPONENT),
               (MANAGED_COMPONENT, UNMANAGED), (MANAGED_HOOK, UNMANAGED)}" by simp
  note a = nested_start_saves_and_finish_restores [OF n, THEN conjunct1, rule_format, OF c u]
  from a have a1: "currentStore (start 1 ?s) = Some 1" by simp
  from a have "store_at (start 1 ?s) 1 = store_at (start 1 ?s) 1 \<longrightarrow>
      currentStore (f 1 (start 1 ?s)) = Some 0" by blast
  then have a2: "currentStore (f 1 (start 1 ?s)) = Some 0" by simp
  let ?e = "run [Create MANAGED_HOOK] init"
  have n': "store_at ?e 0 = Some ?new" by (simp add: runtime_eval)
  have e: "currentStore ?e = None" by (simp add: runtime_eval)
  note b = nested_start_saves_and_finish_restores [OF n', THEN conjunct2, rule_format, OF e]
  from b have "store_at (start 0 ?e) 0 = store_at (start 0 ?e) 0 \<longrightarrow>
      currentStore (f 0 (start 0 ?e)) = None" by blast
  then have b2: "currentStore (f 0 (start 0 ?e)) = None" by simp
  have r1: "run [Create MANAGED_COMPONENT, Create MANAGED_HOOK, Start 0, Start 1] init = start 1 ?s"
    by simp
  have r2: "run [Create MANAGED_COMPONENT, Create MANAGED_HOOK, Start 0, Start 1, Finish 1] init
      = f 1 (start 1 ?s)" by simp
  have r3: "run [Create MANAGED_HOOK, Start 0, Finish 0] init = f 0 (start 0 ?e)" by simp
  show ?thesis
    unfolding r1 r2 r3 using n c(1) a1 a2 e b2 by blast
qed

text \<open>
  Claim C3. Let scope \<open>n\<close>, of mode Unmanaged or ManagedComponent, start while an
  Unmanaged scope \<open>c\<close> is in the register. Then \<open>_start\<close> is \<open>c.f()\<close> followed by the
  beginning of \<open>n\<close>'s tracking: the closer of \<open>c\<close> is called before the effect of \<open>n\<close>
  is started, \<open>n\<close> records no saved previous scope, \<open>c\<close> is left with no unfinished
  start, and the register, a single slot, goes from \<open>c\<close> to what \<open>c.f()\<close> leaves and
  then to \<open>n\<close>. When \<open>c\<close> was the one effect recording, no effect records after
  \<open>c.f()\<close> and only \<open>n\<close>'s does after the start: never two.
\<close>

theorem unmanaged_predecessor_finished_first:
  assumes n: "store_at s n = Some this"
    and c: "currentStore s = Some c" "store_at s c = Some cur"
    and u: "usage cur = UNMANAGED" "usage this = UNMANAGED \<or> usage this = MANAGED_COMPONENT"
  shows "start n s = track n None (f c s) \<and>
         trace (start n s) =
           trace s @ (case endEffect cur of None \<Rightarrow> [] | Some e \<Rightarrow> [EffectEnd e]) @ [EffectStart n] \<and>
         currentStore (f c s) = (if doRestore cur then prevStore cur else Some c) \<and>
         currentStore (start n s) = Some n \<and>
         (\<exists>st'. store_at (start n s) n = Some st' \<and> doRestore st' \<and> prevStore st' = None \<and>
                endEffect st' = Some n) \<and>
         (c \<noteq> n \<longrightarrow> (\<exists>st'. store_at (start n s) c = Some st' \<and> idle st')) \<and>
         (recording (trace s) = [c] \<longrightarrow> endEffect cur = Some c \<longrightarrow>
            recording (trace (f c s)) = [] \<and> recording (trace (start n s)) = [n])"
proof -
  have st: "start n s = track n None (f c s)"
    using n c u by (rule start_finish_first)
  have fc: "store_at (f c s) c =
      Some (cur\<lparr>prevStore := None, endEffect := None, doRestore := False\<rparr>)"
    by (rule store_at_f_same [OF c(2)])
  obtain this' where n': "store_at (f c s) n = Some this'"
    using n fc by (cases "n = c") (simp_all add: store_at_f_other)
  have tr: "trace (start n s) =
      trace s @ (case endEffect cur of None \<Rightarrow> [] | Some e \<Rightarrow> [EffectEnd e]) @ [EffectStart n]"
    by (simp add: st track_facts(2) [OF n'] f_facts(2) [OF c(2)])
  have cf: "currentStore (f c s) = (if doRestore cur then prevStore cur else Some c)"
    by (simp add: f_facts(1) [OF c(2)] c(1))
  have cs: "currentStore (start n s) = Some n"
    by (simp add: st track_facts(1) [OF n'])
  have sn: "\<exists>st'. store_at (start n s) n = Some st' \<and> doRestore st' \<and> prevStore st' = None \<and>
                endEffect st' = Some n"
    by (simp add: st track_facts(3) [OF n'])
  have sc: "c \<noteq> n \<longrightarrow> (\<exists>st'. store_at (start n s) c = Some st' \<and> idle st')"
    by (simp add: st track_facts(4) [OF n'] fc idle_def)
  have rc: "recording (trace s) = [c] \<longrightarrow> endEffect cur = Some c \<longrightarrow>
            recording (trace (f c s)) = [] \<and> recording (trace (start n s)) = [n]"
    by (simp add: tr f_facts(2) [OF c(2)] recording_def)
  show ?thesis using st tr cf cs sn sc rc by blast
qed

text \<open>A component store started while a bare store is in the register.\<close>

theorem unmanaged_predecessor_finished_first_witness:
  "currentStore (run [Create UNMANAGED, Create MANAGED_COMPONENT, Start 0] init) = Some 0 \<and>
   currentStore (run [Create UNMANAGED, Create MANAGED_COMPONENT, Start 0, Start 1] init) = Some 1 \<and>
   trace (run [Create UNMANAGED, Create MANAGED_COMPONENT, Start 0, Start 1] init) =
     [EffectCreate 0, EffectCreate 1, EffectStart 0, EffectEnd 0, EffectStart 1] \<and>
   recording (trace (run [Create UNMANAGED, Create MANAGED_COMPONENT, Start 0, Start 1] init)) = [1]"
proof -
  let ?s = "run [Create UNMANAGED, Create MANAGED_COMPONENT, Start 0] init"
  let ?new = "\<lparr>usage = MANAGED_COMPONENT, version = 0, onChangeNotifyReact = None,
           doRestore = False, prevStore = None, endEffect = None\<rparr>"
  let ?cur = "\<lparr>usage = UNMANAGED, version = 0, onChangeNotifyReact = None,
           doRestore = True, prevStore = None, endEffect = Some 0\<rparr>"
  have n: "store_at ?s 1 = Some ?new" by (simp add: runtime_eval)
  have c: "currentStore ?s = Some 0" "store_at ?s 0 = Some ?cur" by (simp_all add: runtime_eval)
  have u: "usage ?cur = UNMANAGED" "usage ?new = UNMANAGED \<or> usage ?new = MANAGED_COMPONENT"
    by simp_all
  have t: "trace ?s = [EffectCreate 0, EffectCreate 1, EffectStart 0]" by (simp add: runtime_eval)
  have r: "recording (trace ?s) = [0]" by (simp add: runtime_eval recording_def)
  note a = unmanaged_predecessor_finished_first [OF n c u]
  have r1: "run [Create UNMANAGED, Create MANAGED_COMPONENT, Start 0, Start 1] init = start 1 ?s"
    by simp
  have ee: "endEffect ?cur = Some 0" by simp
  from a r ee have a7: "recording (trace (start 1 ?s)) = [1]" by blast
  from a have "trace (start 1 ?s) =
     trace ?s @ (case endEffect ?cur of None \<Rightarrow> [] | Some e \<Rightarrow> [EffectEnd e]) @ [EffectStart 1]"
    by blast
  then have a2: "trace (start 1 ?s) =
     [EffectCreate 0, EffectCreate 1, EffectStart 0, EffectEnd 0, EffectStart 1]"
    unfolding t by simp
  from a have a4: "currentStore (start 1 ?s) = Some 1" by blast
  show ?thesis unfolding r1 using c(1) a4 a2 a7 by blast
qed

section \<open>The version counter\<close>

lemma sint_succ32:
  "sint (v + 1 :: 32 word) = (if sint v = 2147483647 then - 2147483648 else sint v + 1)"
proof -
  have r: "- 2147483648 \<le> sint v" "sint v \<le> 2147483647"
    using sint_ge [of v] sint_lt [of v] by simp_all
  have e: "sint (v + 1) = signed_take_bit 31 (sint v + 1)"
    by (simp add: sint_word_ariths)
  show ?thesis
  proof (cases "sint v = 2147483647")
    case True
    then show ?thesis using e by simp
  next
    case False
    with r have "- 2147483648 \<le> sint v + 1" "sint v + 1 < 2147483648" by simp_all
    then have "signed_take_bit 31 (sint v + 1) = sint v + 1"
      by (simp add: signed_take_bit_int_eq_self)
    then show ?thesis using e False by simp
  qed
qed

lemma sint_succ32_neq: "sint (v + 1 :: 32 word) \<noteq> sint v"
  by (simp add: sint_succ32)

lemma unat_succ32: "unat (v + 1 :: 32 word) = (unat v + 1) mod 2 ^ 32"
  by (simp add: unat_word_ariths)

text \<open>Which operations leave the version of store \<open>i\<close> alone.\<close>

lemma version_put_store:
  "store_at s j = Some st \<Longrightarrow> version st' = version st \<Longrightarrow>
   map_option version (store_at (put_store j st' s) i) = map_option version (store_at s i)"
  by (auto simp: store_at_def put_store_def nth_list_update split: if_splits)

lemma version_f: "map_option version (store_at (f j s) i) = map_option version (store_at s i)"
  by (auto simp: f_def Let_def store_at_def put_store_def emit_def nth_list_update split: option.splits)

lemma version_track:
  "map_option version (store_at (track j p s) i) = map_option version (store_at s i)"
  by (auto simp: track_def Let_def store_at_def put_store_def emit_def nth_list_update split: option.splits)

lemma version_start:
  "map_option version (store_at (start j s) i) = map_option version (store_at s i)"
  by (simp add: start_def Let_def version_track version_f split: option.splits)

lemma version_subscribe:
  "map_option version (store_at (subscribe j cb s) i) = map_option version (store_at s i)"
  by (auto simp: subscribe_def store_at_def put_store_def nth_list_update split: option.splits)

lemma version_callback:
  "j \<noteq> i \<Longrightarrow> map_option version (store_at (callback j s) i) = map_option version (store_at s i)"
  by (auto simp: callback_def Let_def store_at_def put_store_def emit_def split: option.splits)

lemma version_unsubscribe:
  "j \<noteq> i \<Longrightarrow> map_option version (store_at (unsubscribe j s) i) = map_option version (store_at s i)"
  by (auto simp: unsubscribe_def Let_def store_at_def put_store_def emit_def split: option.splits)

lemma store_at_createEffectStore:
  "store_at s i = Some st \<Longrightarrow> store_at (snd (createEffectStore u s)) i = Some st"
  by (auto simp: createEffectStore_def Let_def store_at_def emit_def nth_append split: if_splits)

lemma store_at_ensureFinalCleanup [simp]:
  "store_at (ensureFinalCleanup s) i = store_at s i"
  by (simp add: ensureFinalCleanup_def store_at_def)

lemma version_run_microtask:
  "map_option version (store_at (run_microtask s) i) = map_option version (store_at s i)"
proof -
  have "store_at (s\<lparr>microtasks := microtasks s - 1, finalCleanup := False\<rparr>) i = store_at s i"
    by (simp add: store_at_def)
  then show ?thesis
    by (simp add: run_microtask_def cleanup_callback_def Let_def version_f split: option.splits)
qed

lemma version_useSignals:
  assumes "store_at s i = Some st"
  shows "map_option version (store_at (snd (useSignals r u s)) i) = Some (version st)"
proof (cases r)
  case None
  have "store_at (snd (createEffectStore u (ensureFinalCleanup s))) i = Some st"
    using assms by (simp add: store_at_createEffectStore)
  then show ?thesis using None
    by (simp add: useSignals_def Let_def split_beta version_start)
next
  case (Some j)
  then show ?thesis using assms
    by (simp add: useSignals_def Let_def version_start)
qed

lemma version_step:
  assumes "store_at s i = Some st" and "x \<noteq> Callback i" and "x \<noteq> Unsubscribe i"
  shows "map_option version (store_at (step x s) i) = Some (version st)"
  using assms
  by (cases x)
     (simp_all add: version_f version_start version_subscribe version_callback
        version_unsubscribe version_run_microtask version_useSignals store_at_createEffectStore)

lemma version_run:
  assumes "store_at s i = Some st" and "Callback i \<notin> set ops" and "Unsubscribe i \<notin> set ops"
  shows "map_option version (store_at (run ops s) i) = Some (version st)"
  using assms
proof (induction ops arbitrary: s st)
  case Nil
  then show ?case by simp
next
  case (Cons x xs)
  from Cons.prems have x: "x \<noteq> Callback i" "x \<noteq> Unsubscribe i" by auto
  from version_step [OF Cons.prems(1) x]
  obtain st' where st': "store_at (step x s) i = Some st'" and v: "version st' = version st"
    by auto
  from Cons.IH [OF st'] Cons.prems(2,3) v show ?case by simp
qed

text \<open>
  Claim C7. A call of the effect's \<open>_callback\<close> adds one to the store's version, read as
  a signed 32-bit integer that wraps from 2147483647 to -2147483648, and calls the host's
  callback, once and within the same call, exactly when one is registered.
\<close>

theorem callback_bumps_version_and_notifies:
  assumes "store_at s i = Some st"
  shows "store_at (callback i s) i = Some (st\<lparr>version := version st + 1\<rparr>) \<and>
         getSnapshot (st\<lparr>version := version st + 1\<rparr>) =
           (if getSnapshot st = 2147483647 then - 2147483648 else getSnapshot st + 1) \<and>
         trace (callback i s) =
           trace s @ (case onChangeNotifyReact st of None \<Rightarrow> [] | Some cb \<Rightarrow> [NotifyReact cb])"
  using assms
  by (simp add: callback_def Let_def store_at_put_same getSnapshot_def sint_succ32
      split: option.splits)

text \<open>A subscribed store whose version is the largest signed 32-bit integer.\<close>

theorem callback_bumps_version_and_notifies_witness:
  "store_at \<lparr>stores = [\<lparr>usage = UNMANAGED, version = 2147483647, onChangeNotifyReact = Some 7,
                         doRestore = False, prevStore = None, endEffect = None\<rparr>],
             currentStore = None, finalCleanup = False, microtasks = 0, trace = []\<rparr> 0 =
     Some \<lparr>usage = UNMANAGED, version = 2147483647, onChangeNotifyReact = Some 7,
           doRestore = False, prevStore = None, endEffect = None\<rparr> \<and>
   getSnapshot \<lparr>usage = UNMANAGED, version = 2147483647, onChangeNotifyReact = Some 7,
           doRestore = False, prevStore = None, endEffect = None\<rparr> = 2147483647 \<and>
   map_option getSnapshot (store_at (callback 0
       \<lparr>stores = [\<lparr>usage = UNMANAGED, version = 2147483647, onChangeNotifyReact = Some 7,
                         doRestore = False, prevStore = None, endEffect = None\<rparr>],
             currentStore = None, finalCleanup = False, microtasks = 0, trace = []\<rparr>) 0) =
     Some (- 2147483648) \<and>
   trace (callback 0
       \<lparr>stores = [\<lparr>usage = UNMANAGED, version = 2147483647, onChangeNotifyReact = Some 7,
                         doRestore = False, prevStore = None, endEffect = None\<rparr>],
             currentStore = None, finalCleanup = False, microtasks = 0, trace = []\<rparr>) =
     [NotifyReact 7]"
proof -
  let ?st = "\<lparr>usage = UNMANAGED, version = 2147483647, onChangeNotifyReact = Some 7,
           doRestore = False, prevStore = None, endEffect = None\<rparr>"
  let ?s = "\<lparr>stores = [?st], currentStore = None, finalCleanup = False, microtasks = 0,
            trace = []\<rparr>"
  have h: "store_at ?s 0 = Some ?st" by (simp add: store_at_def)
  have g: "getSnapshot ?st = 2147483647" by (simp add: getSnapshot_def)
  note a = callback_bumps_version_and_notifies [OF h]
  from a g have "map_option getSnapshot (store_at (callback 0 ?s) 0) = Some (- 2147483648)"
    by simp
  moreover from a have "trace (callback 0 ?s) = [NotifyReact 7]" by simp
  ultimately show ?thesis using h g by blast
qed

text \<open>
  Claim C6. The function that \<open>subscribe\<close> returns adds one to the version, modulo
  \<open>2 ^ 32\<close>, whatever the state of the store, and clears the registered callback. So
  after subscribe, unsubscribe and subscribe again, with no call of the effect's callback
  in between, \<open>getSnapshot\<close> returns a value other than the one it returned just before
  the unsubscribe.
\<close>

theorem unsubscribe_rotates_version:
  assumes "store_at s i = Some st"
  shows "store_at (unsubscribe i s) i =
           Some (st\<lparr>version := version st + 1, onChangeNotifyReact := None\<rparr>) \<and>
         unat (version st + 1) = (unat (version st) + 1) mod 2 ^ 32 \<and>
         (\<exists>st1 st3.
            store_at (subscribe i cb s) i = Some st1 \<and> onChangeNotifyReact st1 = Some cb \<and>
            store_at (subscribe i cb' (unsubscribe i (subscribe i cb s))) i = Some st3 \<and>
            onChangeNotifyReact st3 = Some cb' \<and>
            getSnapshot st3 \<noteq> getSnapshot st1)"
proof -
  have u: "\<And>t st0. store_at t i = Some st0 \<Longrightarrow> store_at (unsubscribe i t) i =
      Some (st0\<lparr>version := version st0 + 1, onChangeNotifyReact := None\<rparr>)"
    by (simp add: unsubscribe_def store_at_put_same)
  have sb: "\<And>t st0 c. store_at t i = Some st0 \<Longrightarrow> store_at (subscribe i c t) i =
      Some (st0\<lparr>onChangeNotifyReact := Some c\<rparr>)"
    by (simp add: subscribe_def store_at_put_same)
  note s1 = sb [OF assms, of cb]
  note s2 = u [OF s1]
  note s3 = sb [OF s2, of cb']
  have "getSnapshot (st\<lparr>onChangeNotifyReact := Some cb, version := version st + 1,
       onChangeNotifyReact := None, onChangeNotifyReact := Some cb'\<rparr>) \<noteq>
       getSnapshot (st\<lparr>onChangeNotifyReact := Some cb\<rparr>)"
    by (simp add: getSnapshot_def sint_succ32_neq)
  with s1 s3 have "\<exists>st1 st3.
            store_at (subscribe i cb s) i = Some st1 \<and> onChangeNotifyReact st1 = Some cb \<and>
            store_at (subscribe i cb' (unsubscribe i (subscribe i cb s))) i = Some st3 \<and>
            onChangeNotifyReact st3 = Some cb' \<and>
            getSnapshot st3 \<noteq> getSnapshot st1"
    by simp
  then show ?thesis using u [OF assms] by (simp add: unat_succ32)
qed

text \<open>A store that was never notified is subscribed, unsubscribed and subscribed again.\<close>

theorem unsubscribe_rotates_version_witness:
  "map_option getSnapshot (store_at (run [Create MANAGED_COMPONENT, Subscribe 0 7] init) 0) = Some 0 \<and>
   map_option getSnapshot
     (store_at (run [Create MANAGED_COMPONENT, Subscribe 0 7, Unsubscribe 0, Subscribe 0 8] init) 0)
     = Some 1"
proof -
  let ?s = "run [Create MANAGED_COMPONENT] init"
  let ?st = "\<lparr>usage = MANAGED_COMPONENT, version = 0, onChangeNotifyReact = None,
           doRestore = False, prevStore = None, endEffect = None\<rparr>"
  have h: "store_at ?s 0 = Some ?st" by (simp add: runtime_eval)
  note a = unsubscribe_rotates_version [OF h, of 7 8]
  have b: "map_option getSnapshot (store_at (subscribe 0 7 ?s) 0) = Some 0"
    by (simp add: runtime_eval)
  have c: "map_option getSnapshot (store_at (subscribe 0 8 (unsubscribe 0 (subscribe 0 7 ?s))) 0)
      = Some 1"
    using a by (simp add: runtime_eval)
  have r1: "run [Create MANAGED_COMPONENT, Subscribe 0 7] init = subscribe 0 7 ?s" by simp
  have r2: "run [Create MANAGED_COMPONENT, Subscribe 0 7, Unsubscribe 0, Subscribe 0 8] init =
      subscribe 0 8 (unsubscribe 0 (subscribe 0 7 ?s))" by simp
  show ?thesis unfolding r1 r2 using b c by blast
qed

text \<open>
  Claim C8, as stated: the value of \<open>getSnapshot\<close> changes with every call of the effect's
  callback and never changes while no such call occurs. The second half fails: the
  function returned by \<open>subscribe\<close> changes the version too. Here a store is subscribed
  and unsubscribed, its callback is never called, and its snapshot goes from 0 to 1.
\<close>

theorem snapshot_changes_without_notification:
  "Callback 0 \<notin> set [Subscribe 0 7, Unsubscribe 0] \<and>
   map_option getSnapshot (store_at (run [Create UNMANAGED] init) 0) = Some 0 \<and>
   map_option getSnapshot
     (store_at (run [Subscribe 0 7, Unsubscribe 0] (run [Create UNMANAGED] init)) 0) = Some 1"
  by (simp add: runtime_eval)

text \<open>
  Claim C8, amended: the value of \<open>getSnapshot\<close> changes with every call of the effect's
  callback, and it is the same before and after any sequence of operations that contains
  neither a call of this store's callback nor an unsubscribe of this store
  (\<open>getSnapshot\<close> itself is a function of the store and changes nothing).
\<close>

theorem snapshot_changes_only_by_callback_or_unsubscribe:
  assumes "store_at s i = Some st"
  shows "(\<exists>st'. store_at (callback i s) i = Some st' \<and> getSnapshot st' \<noteq> getSnapshot st) \<and>
         (Callback i \<notin> set ops \<and> Unsubscribe i \<notin> set ops \<longrightarrow>
            (\<exists>st'. store_at (run ops s) i = Some st' \<and> getSnapshot st' = getSnapshot st))"
proof -
  have "store_at (callback i s) i = Some (st\<lparr>version := version st + 1\<rparr>)"
    using assms by (simp add: callback_def Let_def store_at_put_same split: option.splits)
  then have a: "\<exists>st'. store_at (callback i s) i = Some st' \<and> getSnapshot st' \<noteq> getSnapshot st"
    by (simp add: getSnapshot_def sint_succ32_neq)
  have b: "\<exists>st'. store_at (run ops s) i = Some st' \<and> getSnapshot st' = getSnapshot st"
    if "Callback i \<notin> set ops" "Unsubscribe i \<notin> set ops"
    using version_run [OF assms that] by (auto simp: getSnapshot_def)
  from a b show ?thesis by blast
qed

text \<open>
  A store goes through a start, a finish, a subscription, a cleanup microtask and the
  notification of another store: its snapshot stays 0. Its own notification makes it 1.
\<close>

theorem snapshot_changes_only_by_callback_or_unsubscribe_witness:
  "store_at (run [Create UNMANAGED, Create MANAGED_HOOK] init) 0 =
     Some \<lparr>usage = UNMANAGED, version = 0, onChangeNotifyReact = None,
           doRestore = False, prevStore = None, endEffect = None\<rparr> \<and>
   Callback 0 \<notin> set [Start 0, Subscribe 0 7, Callback 1, Finish 0, Microtask] \<and>
   Unsubscribe 0 \<notin> set [Start 0, Subscribe 0 7, Callback 1, Finish 0, Microtask] \<and>
   map_option getSnapshot
     (store_at (run [Start 0, Subscribe 0 7, Callback 1, Finish 0, Microtask]
        (run [Create UNMANAGED, Create MANAGED_HOOK] init)) 0) = Some 0 \<and>
   map_option getSnapshot
     (store_at (callback 0 (run [Create UNMANAGED, Create MANAGED_HOOK] init)) 0) \<noteq> Some 0"
proof -
  let ?s = "run [Create UNMANAGED, Create MANAGED_HOOK] init"
  let ?st = "\<lparr>usage = UNMANAGED, version = 0, onChangeNotifyReact = None,
           doRestore = False, prevStore = None, endEffect = None\<rparr>"
  let ?ops = "[Start 0, Subscribe 0 7, Callback 1, Finish 0, Microtask]"
  have h: "store_at ?s 0 = Some ?st" by (simp add: runtime_eval)
  have o: "Callback 0 \<notin> set ?ops \<and> Unsubscribe 0 \<notin> set ?ops" by simp
  have g: "getSnapshot ?st = 0" by (simp add: getSnapshot_def)
  note a = snapshot_changes_only_by_callback_or_unsubscribe [OF h, of ?ops]
  from a o obtain st' where "store_at (run ?ops ?s) 0 = Some st'" "getSnapshot st' = getSnapshot ?st"
    by blast
  with g have b: "map_option getSnapshot (store_at (run ?ops ?s) 0) = Some 0" by simp
  from a obtain st'' where "store_at (callback 0 ?s) 0 = Some st''"
      "getSnapshot st'' \<noteq> getSnapshot ?st" by blast
  with g have c: "map_option getSnapshot (store_at (callback 0 ?s) 0) \<noteq> Some 0" by simp
  show ?thesis using h o b c by blast
qed

text \<open>
  Claim C10. \<open>getSnapshot\<close> of a store that \<open>createEffectStore\<close> just made is 0, and it
  is still 0 after any sequence of operations that contains neither a call of the store's
  effect callback nor an unsubscribe of the store.
\<close>

theorem fresh_store_snapshot_is_zero:
  assumes "createEffectStore u s = (n, s1)"
  shows "\<exists>st. store_at s1 n = Some st \<and> usage st = u \<and> getSnapshot st = 0 \<and>
           (\<forall>ops. Callback n \<notin> set ops \<and> Unsubscribe n \<notin> set ops \<longrightarrow>
              (\<exists>st'. store_at (run ops s1) n = Some st' \<and> getSnapshot st' = 0))"
proof -
  let ?st = "\<lparr>usage = u, version = 0, onChangeNotifyReact = None,
              doRestore = False, prevStore = None, endEffect = None\<rparr>"
  have h: "store_at s1 n = Some ?st"
    using assms by (auto simp: createEffectStore_def Let_def store_at_def emit_def)
  have "\<exists>st'. store_at (run ops s1) n = Some st' \<and> getSnapshot st' = 0"
    if "Callback n \<notin> set ops \<and> Unsubscribe n \<notin> set ops" for ops
    using version_run [OF h, of ops] that by (auto simp: getSnapshot_def)
  then show ?thesis using h by (simp add: getSnapshot_def)
qed

text \<open>The first store ever made, then started, finished and subscribed.\<close>

theorem fresh_store_snapshot_is_zero_witness:
  "createEffectStore MANAGED_HOOK init =
     (0, \<lparr>stores = [\<lparr>usage = MANAGED_HOOK, version = 0, onChangeNotifyReact = None,
                      doRestore = False, prevStore = None, endEffect = None\<rparr>],
          currentStore = None, finalCleanup = False, microtasks = 0,
          trace = [EffectCreate 0]\<rparr>) \<and>
   Callback 0 \<notin> set [Start 0, Finish 0, Subscribe 0 3] \<and>
   Unsubscribe 0 \<notin> set [Start 0, Finish 0, Subscribe 0 3] \<and>
   map_option getSnapshot
     (store_at (run [Start 0, Finish 0, Subscribe 0 3]
        \<lparr>stores = [\<lparr>usage = MANAGED_HOOK, version = 0, onChangeNotifyReact = None,
                      doRestore = False, prevStore = None, endEffect = None\<rparr>],
          currentStore = None, finalCleanup = False, microtasks = 0,
          trace = [EffectCreate 0]\<rparr>) 0) = Some 0"
proof -
  let ?s1 = "\<lparr>stores = [\<lparr>usage = MANAGED_HOOK, version = 0, onChangeNotifyReact = None,
                      doRestore = False, prevStore = None, endEffect = None\<rparr>],
          currentStore = None, finalCleanup = False, microtasks = 0,
          trace = [EffectCreate 0]\<rparr>"
  let ?ops = "[Start 0, Finish 0, Subscribe 0 3]"
  have h: "createEffectStore MANAGED_HOOK init = (0, ?s1)"
    by (simp add: createEffectStore_def init_def emit_def)
  have o: "Callback 0 \<notin> set ?ops \<and> Unsubscribe 0 \<notin> set ?ops" by simp
  from fresh_store_snapshot_is_zero [OF h] o
  obtain st' where "store_at (run ?ops ?s1) 0 = Some st'" "getSnapshot st' = 0" by blast
  then have "map_option getSnapshot (store_at (run ?ops ?s1) 0) = Some 0" by simp
  then show ?thesis using h o by blast
qed

section \<open>Finishing a store that has no unfinished start\<close>

lemma idle_at_f: "idle_at s i \<Longrightarrow> idle_at (f j s) i"
  by (auto simp: idle_at_def idle_def f_def Let_def store_at_def put_store_def emit_def
      nth_list_update split: option.splits if_splits)

lemma idle_at_track: "j \<noteq> i \<Longrightarrow> idle_at (track j p s) i = idle_at s i"
  by (auto simp: idle_at_def track_def store_at_def put_store_def emit_def split: option.splits)

lemma idle_at_start: "j \<noteq> i \<Longrightarrow> idle_at s i \<Longrightarrow> idle_at (start j s) i"
  by (simp add: start_def Let_def idle_at_track idle_at_f split: option.splits)

lemma idle_at_subscribe: "idle_at (subscribe j cb s) i = idle_at s i"
  by (auto simp: idle_at_def idle_def subscribe_def store_at_def put_store_def nth_list_update
      split: option.splits)

lemma idle_at_callback: "idle_at (callback j s) i = idle_at s i"
  by (auto simp: idle_at_def idle_def callback_def Let_def store_at_def put_store_def emit_def
      nth_list_update split: option.splits)

lemma idle_at_unsubscribe: "idle_at (unsubscribe j s) i = idle_at s i"
  by (auto simp: idle_at_def idle_def unsubscribe_def Let_def store_at_def put_store_def emit_def
      nth_list_update split: option.splits)

lemma idle_at_createEffectStore: "idle_at s i \<Longrightarrow> idle_at (snd (createEffectStore u s)) i"
  by (auto simp: idle_at_def createEffectStore_def Let_def store_at_def emit_def nth_append
      split: option.splits if_splits)

lemma idle_at_fresh: "createEffectStore u s = (n, s1) \<Longrightarrow> idle_at s1 n"
  by (auto simp: idle_at_def idle_def createEffectStore_def Let_def store_at_def emit_def)

lemma idle_at_cong: "stores s' = stores s \<Longrightarrow> idle_at s' i = idle_at s i"
  by (simp add: idle_at_def store_at_def)

lemma idle_at_updates [simp]:
  "idle_at (s\<lparr>finalCleanup := b\<rparr>) i = idle_at s i"
  "idle_at (s\<lparr>microtasks := m\<rparr>) i = idle_at s i"
  "idle_at (s\<lparr>currentStore := c\<rparr>) i = idle_at s i"
  "idle_at (emit e s) i = idle_at s i"
  by (simp_all add: idle_at_def store_at_def emit_def)

lemma idle_at_cleanup_callback: "idle_at s i \<Longrightarrow> idle_at (cleanup_callback s) i"
  by (cases "currentStore s") (simp_all add: cleanup_callback_def Let_def idle_at_f)

lemma idle_at_run_microtask: "idle_at s i \<Longrightarrow> idle_at (run_microtask s) i"
  by (simp add: run_microtask_def idle_at_cleanup_callback)

lemma idle_at_ensureFinalCleanup [simp]: "idle_at (ensureFinalCleanup s) i = idle_at s i"
  by (simp add: ensureFinalCleanup_def)

lemma idle_at_allocated: "idle_at s i \<Longrightarrow> i < length (stores s)"
  by (simp add: idle_at_def store_at_def split: if_splits)

lemma useSignals_None:
  "useSignals None u s =
     (length (stores s),
      start (length (stores s))
        (emit (SyncExternalStore (length (stores s)))
           (snd (createEffectStore u (ensureFinalCleanup s)))))"
  by (simp add: useSignals_def Let_def createEffectStore_def ensureFinalCleanup_def)

lemma useSignals_Some:
  "useSignals (Some j) u s = (j, start j (emit (SyncExternalStore j) (ensureFinalCleanup s)))"
  by (simp add: useSignals_def Let_def)

lemma idle_at_useSignals:
  assumes "idle_at s i" and "r \<noteq> Some i"
  shows "idle_at (snd (useSignals r u s)) i"
proof (cases r)
  case None
  have ne: "length (stores s) \<noteq> i" using idle_at_allocated [OF assms(1)] by simp
  have "idle_at (snd (createEffectStore u (ensureFinalCleanup s))) i"
    by (rule idle_at_createEffectStore) (simp add: assms(1))
  then have "idle_at (emit (SyncExternalStore (length (stores s)))
      (snd (createEffectStore u (ensureFinalCleanup s)))) i" by simp
  from idle_at_start [OF ne this] show ?thesis
    unfolding None useSignals_None by simp
next
  case (Some j)
  with assms(2) have ne: "j \<noteq> i" by simp
  have "idle_at (emit (SyncExternalStore j) (ensureFinalCleanup s)) i"
    using assms(1) by simp
  from idle_at_start [OF ne this] show ?thesis
    unfolding Some useSignals_Some by simp
qed

lemma idle_at_step:
  assumes "idle_at s i" and "x \<noteq> Start i" and "\<forall>u. x \<noteq> UseSignals (Some i) u"
  shows "idle_at (step x s) i"
proof (cases x)
  case (Start j)
  with assms show ?thesis by (simp add: idle_at_start)
next
  case (UseSignals r u)
  with assms(3) have "r \<noteq> Some i" by auto
  with assms(1) UseSignals show ?thesis by (simp add: idle_at_useSignals)
qed (use assms(1) in \<open>simp_all add: idle_at_f idle_at_subscribe idle_at_callback
      idle_at_unsubscribe idle_at_createEffectStore idle_at_run_microtask\<close>)

lemma idle_at_run:
  assumes "idle_at s i" and "Start i \<notin> set ops" and "\<forall>u. UseSignals (Some i) u \<notin> set ops"
  shows "idle_at (run ops s) i"
  using assms
proof (induction ops arbitrary: s)
  case Nil
  then show ?case by simp
next
  case (Cons x xs)
  have "idle_at (step x s) i"
    using Cons.prems by (intro idle_at_step) auto
  then show ?case using Cons by simp
qed

lemma f_idle_at: "idle_at s i \<Longrightarrow> f i s = s"
  by (auto simp: idle_at_def split: option.splits intro: f_idle)

text \<open>
  Claim C9. A finish of a store that has no unfinished start changes nothing, neither the
  register nor the store nor anything else; such are a store just created and a store
  that has not been started since, whatever else has run. And a second finish changes
  nothing after the first.
\<close>

theorem finish_without_start_changes_nothing:
  "(idle_at s i \<longrightarrow> f i s = s) \<and>
   (createEffectStore u s0 = (n, s1) \<and> Start n \<notin> set ops \<and>
      (\<forall>u'. UseSignals (Some n) u' \<notin> set ops) \<longrightarrow> f n (run ops s1) = run ops s1) \<and>
   f i (f i s) = f i s"
proof (intro conjI impI)
  assume "idle_at s i"
  then show "f i s = s" by (rule f_idle_at)
next
  assume a: "createEffectStore u s0 = (n, s1) \<and> Start n \<notin> set ops \<and>
      (\<forall>u'. UseSignals (Some n) u' \<notin> set ops)"
  then have "createEffectStore u s0 = (n, s1)" ..
  then have "idle_at s1 n" by (rule idle_at_fresh)
  then have "idle_at (run ops s1) n" using a by (simp add: idle_at_run)
  then show "f n (run ops s1) = run ops s1" by (rule f_idle_at)
next
  show "f i (f i s) = f i s" by (rule f_f)
qed

text \<open>
  A hook store that is never started while a component store is started around a
  subscription; and a second finish of the component store.
\<close>

theorem finish_without_start_changes_nothing_witness:
  "createEffectStore MANAGED_HOOK (run [Create MANAGED_COMPONENT] init) =
     (1, run [Create MANAGED_COMPONENT, Create MANAGED_HOOK] init) \<and>
   Start 1 \<notin> set [Start 0, Subscribe 1 4] \<and>
   (\<forall>u'. UseSignals (Some 1) u' \<notin> set [Start 0, Subscribe 1 4]) \<and>
   idle_at (run [Create MANAGED_COMPONENT, Create MANAGED_HOOK] init) 1 \<and>
   f 1 (run [Create MANAGED_COMPONENT, Create MANAGED_HOOK] init) =
     run [Create MANAGED_COMPONENT, Create MANAGED_HOOK] init \<and>
   f 1 (run [Start 0, Subscribe 1 4] (run [Create MANAGED_COMPONENT, Create MANAGED_HOOK] init)) =
     run [Start 0, Subscribe 1 4] (run [Create MANAGED_COMPONENT, Create MANAGED_HOOK] init) \<and>
   currentStore (run [Start 0, Subscribe 1 4]
     (run [Create MANAGED_COMPONENT, Create MANAGED_HOOK] init)) = Some 0"
proof -
  let ?s0 = "run [Create MANAGED_COMPONENT] init"
  let ?s1 = "run [Create MANAGED_COMPONENT, Create MANAGED_HOOK] init"
  let ?ops = "[Start 0, Subscribe 1 4]"
  have h: "createEffectStore MANAGED_HOOK ?s0 = (1, ?s1)"
    by (simp add: createEffectStore_def Let_def init_def emit_def)
  have o: "Start 1 \<notin> set ?ops" "\<forall>u'. UseSignals (Some 1) u' \<notin> set ?ops" by simp_all
  have i: "idle_at ?s1 1" by (simp add: runtime_eval)
  have c: "currentStore (run ?ops ?s1) = Some 0" by (simp add: runtime_eval)
  note a = finish_without_start_changes_nothing
    [where s = ?s1 and i = 1 and u = MANAGED_HOOK and ?s0.0 = ?s0 and n = 1 and ?s1.0 = ?s1
       and ops = ?ops]
  note a1 = a [THEN conjunct1, THEN mp, OF i]
  note a2 = a [THEN conjunct2, THEN conjunct1, THEN mp, OF conjI [OF h conjI [OF o(1) o(2)]]]
  show ?thesis using h o i a1 a2 c by (intro conjI) assumption+
qed

section \<open>The cleanup microtask\<close>

lemma reaper_f [simp]:
  "finalCleanup (f i s) = finalCleanup s" "microtasks (f i s) = microtasks s"
  by (simp_all add: f_def Let_def split: option.splits)

lemma reaper_track [simp]:
  "finalCleanup (track i p s) = finalCleanup s" "microtasks (track i p s) = microtasks s"
  by (simp_all add: track_def split: option.splits)

lemma reaper_start [simp]:
  "finalCleanup (start i s) = finalCleanup s" "microtasks (start i s) = microtasks s"
  by (simp_all add: start_def Let_def split: option.splits)

lemma reaper_subscribe [simp]:
  "finalCleanup (subscribe i cb s) = finalCleanup s" "microtasks (subscribe i cb s) = microtasks s"
  by (simp_all add: subscribe_def split: option.splits)

lemma reaper_callback [simp]:
  "finalCleanup (callback i s) = finalCleanup s" "microtasks (callback i s) = microtasks s"
  by (simp_all add: callback_def Let_def split: option.splits)

lemma reaper_unsubscribe [simp]:
  "finalCleanup (unsubscribe i s) = finalCleanup s" "microtasks (unsubscribe i s) = microtasks s"
  by (simp_all add: unsubscribe_def split: option.splits)

lemma reaper_createEffectStore [simp]:
  "finalCleanup (snd (createEffectStore u s)) = finalCleanup s"
  "microtasks (snd (createEffectStore u s)) = microtasks s"
  by (simp_all add: createEffectStore_def Let_def)

lemma reaper_ensureFinalCleanup:
  "finalCleanup (ensureFinalCleanup s)"
  "microtasks (ensureFinalCleanup s) = (if finalCleanup s then microtasks s else Suc (microtasks s))"
  by (simp_all add: ensureFinalCleanup_def)

lemma reaper_useSignals:
  "finalCleanup (snd (useSignals r u s))"
  "microtasks (snd (useSignals r u s)) = (if finalCleanup s then microtasks s else Suc (microtasks s))"
  by (cases r; simp add: useSignals_None useSignals_Some reaper_ensureFinalCleanup)+

lemma cleanup_callback_unfold:
  "cleanup_callback s =
     (case currentStore s of None \<Rightarrow> s\<lparr>finalCleanup := False\<rparr>
      | Some c \<Rightarrow> f c (s\<lparr>finalCleanup := False\<rparr>))"
  by (simp add: cleanup_callback_def Let_def)

lemma reaper_cleanup_callback:
  "\<not> finalCleanup (cleanup_callback s)" "microtasks (cleanup_callback s) = microtasks s"
  by (simp_all add: cleanup_callback_unfold split: option.splits)

lemma reaper_run_microtask:
  "0 < microtasks s \<Longrightarrow> \<not> finalCleanup (run_microtask s)"
  "microtasks (run_microtask s) = microtasks s - 1"
  by (simp_all add: run_microtask_def reaper_cleanup_callback)

lemma step_does_not_arm:
  assumes "\<forall>r u. x \<noteq> UseSignals r u"
  shows "microtasks (step x s) \<le> microtasks s" and "finalCleanup (step x s) \<longrightarrow> finalCleanup s"
proof -
  have m: "finalCleanup (run_microtask s) \<longrightarrow> finalCleanup s"
    by (simp add: run_microtask_def reaper_cleanup_callback)
  show "microtasks (step x s) \<le> microtasks s"
    using assms by (cases x) (simp_all add: reaper_run_microtask)
  show "finalCleanup (step x s) \<longrightarrow> finalCleanup s"
    using assms m by (cases x) simp_all
qed

lemma reaper_ok_step: "reaper_ok s \<Longrightarrow> reaper_ok (step x s)"
proof (cases x)
  case (UseSignals r u)
  assume "reaper_ok s"
  then show ?thesis using UseSignals by (simp add: reaper_ok_def reaper_useSignals)
next
  case Microtask
  assume "reaper_ok s"
  then show ?thesis using Microtask
    by (cases "finalCleanup s")
       (simp_all add: reaper_ok_def reaper_run_microtask, simp add: run_microtask_def)
qed (simp_all add: reaper_ok_def)

lemma reaper_ok_run: "reaper_ok s \<Longrightarrow> reaper_ok (run ops s)"
  by (induction ops arbitrary: s) (simp_all add: reaper_ok_step)

lemma reaper_ok_init: "reaper_ok init"
  by (simp add: reaper_ok_def init_def)

lemma start_empty_register:
  "i < length (stores s) \<Longrightarrow> currentStore s = None \<Longrightarrow>
   currentStore (start i s) = Some i \<and>
   store_at (start i s) i =
     Some ((stores s ! i)\<lparr>doRestore := True, prevStore := None, endEffect := Some i\<rparr>)"
proof -
  assume a: "i < length (stores s)" "currentStore s = None"
  then have h: "store_at s i = Some (stores s ! i)" by (simp add: store_at_def)
  show ?thesis
    by (simp add: start_empty [OF h a(2)] track_facts(1,3) [OF h])
qed

lemma useSignals_empty_register:
  assumes "currentStore s = None" and "r = None \<or> (\<exists>i. r = Some i \<and> i < length (stores s))"
  shows "\<exists>st. currentStore (snd (useSignals r u s)) = Some (fst (useSignals r u s)) \<and>
           store_at (snd (useSignals r u s)) (fst (useSignals r u s)) = Some st \<and>
           doRestore st \<and> prevStore st = None"
proof (cases r)
  case None
  let ?t = "emit (SyncExternalStore (length (stores s)))
              (snd (createEffectStore u (ensureFinalCleanup s)))"
  have "length (stores s) < length (stores ?t)" "currentStore ?t = None"
    using assms(1) by (simp_all add: createEffectStore_def Let_def ensureFinalCleanup_def)
  from start_empty_register [OF this] show ?thesis
    unfolding None useSignals_None by simp
next
  case (Some i)
  let ?t = "emit (SyncExternalStore i) (ensureFinalCleanup s)"
  have "i < length (stores ?t)" "currentStore ?t = None"
    using assms Some by (simp_all add: ensureFinalCleanup_def)
  from start_empty_register [OF this] show ?thesis
    unfolding Some useSignals_Some by simp
qed

section \<open>The register follows the call stack\<close>

lemma recording_snoc [simp]:
  "recording (tr @ [e]) = recording_step (recording tr) e"
  by (simp add: recording_def)

lemma linked_update_other:
  "n \<notin> set stk \<Longrightarrow> linked (ss[n := st]) stk = linked ss stk"
  by (induction stk) auto

lemma linked_allocated: "linked ss stk \<Longrightarrow> i \<in> set stk \<Longrightarrow> i < length ss"
  by (induction stk) auto

lemma stores_track:
  "n < length (stores s) \<Longrightarrow>
   stores (track n p s) =
     (stores s)[n := (stores s ! n)\<lparr>doRestore := True, prevStore := p, endEffect := Some n\<rparr>]"
  by (simp add: track_def store_at_def put_store_def emit_def)

lemma stores_f:
  "n < length (stores s) \<Longrightarrow>
   stores (f n s) =
     (stores s)[n := (stores s ! n)\<lparr>prevStore := None, endEffect := None, doRestore := False\<rparr>]"
  by (simp add: f_def Let_def store_at_def put_store_def emit_def split: option.splits)

lemma coupled_track:
  assumes c: "coupled s stk" and n: "n < length (stores s)" "n \<notin> set stk"
    and u: "stk \<noteq> [] \<longrightarrow> usage (stores s ! n) \<noteq> UNMANAGED"
  shows "coupled (track n (top stk) s) (n # stk)"
proof -
  have h: "store_at s n = Some (stores s ! n)" using n by (simp add: store_at_def)
  show ?thesis
    using c n u
    by (auto simp: coupled_def stores_track track_facts(1,2) [OF h] linked_update_other top_def
        idle_def nth_list_update)
qed

lemma coupled_finish_top:
  assumes c: "coupled s (n # stk)"
  shows "coupled (f n s) stk"
proof -
  from c have n: "n < length (stores s)" and d: "n \<notin> set stk" "distinct stk"
    and l: "linked (stores s) stk"
    and r: "doRestore (stores s ! n)" "endEffect (stores s ! n) = Some n"
       "prevStore (stores s ! n) = top stk"
    by (simp_all add: coupled_def)
  have h: "store_at s n = Some (stores s ! n)" using n by (simp add: store_at_def)
  show ?thesis
    using c n d l r
    by (auto simp: coupled_def stores_f f_facts(1,2) [OF h] linked_update_other idle_def
        nth_list_update)
qed

lemma coupled_finish_other:
  assumes c: "coupled s stk" and n: "n \<notin> set stk"
  shows "f n s = s"
proof (cases "n < length (stores s)")
  case True
  then have h: "store_at s n = Some (stores s ! n)" by (simp add: store_at_def)
  from c True n have "idle (stores s ! n)" by (simp add: coupled_def)
  with h show ?thesis by (rule f_idle)
next
  case False
  then show ?thesis by (simp add: f_def store_at_def)
qed

lemma usage_track [simp]: "map usage (stores (track n p s)) = map usage (stores s)"
  by (auto simp: track_def store_at_def put_store_def emit_def map_update list_update_same_conv
      split: option.splits)

lemma usage_f [simp]: "map usage (stores (f n s)) = map usage (stores s)"
  by (auto simp: f_def Let_def store_at_def put_store_def emit_def map_update list_update_same_conv
      split: option.splits)

lemma usage_start [simp]: "map usage (stores (start n s)) = map usage (stores s)"
  by (simp add: start_def Let_def split: option.splits)

lemma length_stores_f [simp]: "length (stores (f n s)) = length (stores s)"
  by (simp add: f_def Let_def put_store_def emit_def split: option.splits)

lemma coupled_start:
  assumes c: "coupled s stk"
    and p: "nested_start (map usage (stores s)) n stk = Some stk'"
  shows "coupled (start n s) stk'"
proof (cases stk)
  case Nil
  with p have n: "n < length (stores s)" and stk': "stk' = [n]"
    by (simp_all split: if_splits)
  have h: "store_at s n = Some (stores s ! n)" using n by (simp add: store_at_def)
  have e: "currentStore s = None" using c Nil by (simp add: coupled_def top_def)
  have "coupled (track n (top stk) s) (n # stk)"
    using c n Nil by (intro coupled_track) simp_all
  then show ?thesis
    by (simp add: start_empty [OF h e] stk' Nil top_def)
next
  case (Cons c0 rest)
  from p Cons have n: "n < length (stores s)" and c0: "c0 < length (stores s)"
    by (simp_all split: if_splits)
  have hn: "store_at s n = Some (stores s ! n)" using n by (simp add: store_at_def)
  have hc: "store_at s c0 = Some (stores s ! c0)" using c0 by (simp add: store_at_def)
  have cur: "currentStore s = Some c0" using c Cons by (simp add: coupled_def top_def)
  let ?uc = "usage (stores s ! c0)" and ?un = "usage (stores s ! n)"
  consider
      (finish_first) "?uc = UNMANAGED" "?un = UNMANAGED \<or> ?un = MANAGED_COMPONENT"
    | (fold) "?uc = MANAGED_COMPONENT \<or> ?uc = MANAGED_HOOK" "?un = UNMANAGED"
    | (nested) "(?uc, ?un) \<notin> {(UNMANAGED, UNMANAGED), (UNMANAGED, MANAGED_COMPONENT),
          (MANAGED_COMPONENT, UNMANAGED), (MANAGED_HOOK, UNMANAGED)}"
    by (cases ?uc; cases ?un) auto
  then show ?thesis
  proof cases
    case finish_first
    from p Cons n c0 finish_first have stk': "stk' = [n]" by auto
    from c Cons finish_first(1) have rest: "rest = []" by (auto simp: coupled_def)
    have st: "start n s = track n None (f c0 s)"
      using hn cur hc finish_first by (rule start_finish_first)
    have "coupled (f c0 s) []" using c Cons rest by (simp add: coupled_finish_top)
    then have "coupled (track n (top []) (f c0 s)) [n]"
      using n by (intro coupled_track) simp_all
    then show ?thesis by (simp add: st stk' top_def)
  next
    case fold
    from p Cons n c0 fold have "stk' = stk" by auto
    moreover have "start n s = s" using hn cur hc fold by (rule start_fold)
    ultimately show ?thesis using c by simp
  next
    case nested
    from nested have b: "\<not> (?uc = UNMANAGED \<and> (?un = UNMANAGED \<or> ?un = MANAGED_COMPONENT))"
      "\<not> ((?uc = MANAGED_COMPONENT \<or> ?uc = MANAGED_HOOK) \<and> ?un = UNMANAGED)" by auto
    from p Cons n c0 b have ni: "n \<notin> set stk" and stk': "stk' = n # stk"
      by (auto split: if_splits)
    have un: "?un \<noteq> UNMANAGED" using b by (cases ?uc) auto
    have st: "start n s = track n (Some c0) s"
      using hn cur hc nested by (rule start_nested)
    have "coupled (track n (top stk) s) (n # stk)"
      using c n ni un by (intro coupled_track) simp_all
    then show ?thesis by (simp add: st stk' Cons top_def)
  qed
qed

lemma coupled_finish:
  assumes c: "coupled s stk" and p: "nested_finish n stk = Some stk'"
  shows "coupled (f n s) stk'"
proof (cases stk)
  case Nil
  with p have "stk' = stk" by simp
  moreover have "f n s = s" using c Nil by (intro coupled_finish_other [of s stk]) simp_all
  ultimately show ?thesis using c by simp
next
  case (Cons c0 rest)
  show ?thesis
  proof (cases "n = c0")
    case True
    with p Cons have "stk' = rest" by simp
    then show ?thesis using c Cons True by (simp add: coupled_finish_top)
  next
    case False
    with p Cons have ni: "n \<notin> set stk" and "stk' = stk" by (auto split: if_splits)
    moreover have "f n s = s" using c ni by (rule coupled_finish_other)
    ultimately show ?thesis using c by simp
  qed
qed

lemma coupled_step:
  assumes "coupled s stk" and "nested_step (map usage (stores s)) x stk = Some stk'"
  shows "coupled (step x s) stk' \<and> map usage (stores (step x s)) = map usage (stores s)"
  using assms by (cases x) (simp_all add: coupled_start coupled_finish)

lemma coupled_run:
  assumes "coupled s stk" and "nested_run (map usage (stores s)) ops stk = Some stk'"
  shows "coupled (run ops s) stk'"
  using assms
proof (induction ops arbitrary: s stk)
  case Nil
  then show ?case by simp
next
  case (Cons x xs)
  from Cons.prems(2) obtain stk1 where
    s1: "nested_step (map usage (stores s)) x stk = Some stk1"
    and r: "nested_run (map usage (stores s)) xs stk1 = Some stk'"
    by (auto split: option.splits)
  from coupled_step [OF Cons.prems(1) s1]
  have c1: "coupled (step x s) stk1" and m: "map usage (stores (step x s)) = map usage (stores s)"
    by simp_all
  from Cons.IH [OF c1] r m show ?case by simp
qed

lemma fresh_coupled: "fresh s \<Longrightarrow> coupled s []"
  by (simp add: fresh_def coupled_def top_def list_all_length)

lemma nested_run_append:
  "nested_run modes (xs @ ys) stk =
     (case nested_run modes xs stk of None \<Rightarrow> None | Some stk' \<Rightarrow> nested_run modes ys stk')"
  by (induction xs arbitrary: stk) (simp_all split: option.splits)

lemma coupled_attributed: "coupled s stk \<Longrightarrow> attributed s = currentStore s"
  by (simp add: coupled_def attributed_def top_def)

text \<open>Well-bracketed calls follow the discipline.\<close>

lemma subseq_set: "subseq xs ys \<Longrightarrow> set xs \<subseteq> set ys"
  by (auto elim: list_emb_set)

lemma nested_start_well_bracketed:
  assumes "subseq stk pend" and "\<forall>p \<in> set pend. p < length modes"
    and "n < length modes" and "n \<notin> set pend"
  shows "\<exists>stk'. nested_start modes n stk = Some stk' \<and> subseq stk' (n # pend)"
proof (cases stk)
  case Nil
  then show ?thesis using assms by simp
next
  case (Cons c rest)
  have "set stk \<subseteq> set pend" using assms(1) by (rule subseq_set)
  with Cons assms have c: "c < length modes" and ni: "n \<noteq> c" "n \<notin> set rest" by auto
  show ?thesis using Cons c ni assms(1,3) by auto
qed

lemma nested_finish_well_bracketed:
  assumes "subseq stk (n # ps)" and "distinct (n # ps)"
  shows "\<exists>stk'. nested_finish n stk = Some stk' \<and> subseq stk' ps"
proof (cases stk)
  case Nil
  then show ?thesis by simp
next
  case (Cons c rest)
  show ?thesis
  proof (cases "n = c")
    case True
    then show ?thesis using Cons assms(1) by simp
  next
    case False
    with Cons assms(1) have s: "subseq stk ps" by simp
    then have "set stk \<subseteq> set ps" by (rule subseq_set)
    with assms(2) Cons have "n \<notin> set rest" by auto
    then show ?thesis using Cons False s by simp
  qed
qed

lemma well_bracketed_nested_run:
  assumes "well_bracketed (length modes) ops pend"
    and "subseq stk pend" and "distinct pend" and "\<forall>p \<in> set pend. p < length modes"
  shows "nested_run modes ops stk \<noteq> None"
  using assms
proof (induction "length modes" ops pend arbitrary: stk rule: well_bracketed.induct)
  case (1 pend)
  then show ?case by simp
next
  case (2 n xs pend)
  from "2.prems"(1) have n: "n < length modes" "n \<notin> set pend"
    and w: "well_bracketed (length modes) xs (n # pend)" by simp_all
  from nested_start_well_bracketed [OF "2.prems"(2,4) n]
  obtain stk' where s: "nested_start modes n stk = Some stk'" and e: "subseq stk' (n # pend)"
    by blast
  have "nested_run modes xs stk' \<noteq> None"
    using w e n "2.prems"(3,4) by (intro "2.hyps") simp_all
  then show ?case using s by simp
next
  case (3 n xs pend)
  from "3.prems"(1) obtain ps where p: "pend = n # ps"
    and w: "well_bracketed (length modes) xs ps"
    by (auto split: list.splits)
  from nested_finish_well_bracketed [of stk n ps] "3.prems"(2,3) p
  obtain stk' where s: "nested_finish n stk = Some stk'" and e: "subseq stk' ps" by auto
  have "nested_run modes xs stk' \<noteq> None"
    using w e p "3.prems"(3,4) by (intro "3.hyps" [of n ps]) simp_all
  then show ?case using s by simp
qed simp_all

lemma well_bracketed_follows_discipline:
  "well_bracketed (length (stores s)) ops [] \<Longrightarrow>
   nested_run (map usage (stores s)) ops [] \<noteq> None"
  using well_bracketed_nested_run [of "map usage (stores s)" ops "[]" "[]"] by simp

text \<open>
  Claim C1. Take a state in which no scope is started and a sequence of start and finish
  calls that follows the discipline of section 4.2, and stop it at any moment. Then the
  effect that records a read at that moment is the effect of the scope in the register
  (none when the register is empty), and that scope is the top of the call stack of
  tracking scopes: the innermost scope that is started and not finished nor folded into
  its managed parent. So no read goes to a sibling or to a scope further down the stack,
  and a finish brings back the scope that the matching start suspended. The discipline
  admits every well-bracketed sequence of starts and finishes
  (\<open>well_bracketed_follows_discipline\<close>), and also a finish that has nothing to
  finish and a new start of a bare scope that the next start has finished.
\<close>

theorem reads_attributed_to_register_scope:
  assumes "fresh s"
    and "nested_run (map usage (stores s)) (ops @ rest) [] = Some final"
  shows "\<exists>stk. nested_run (map usage (stores s)) ops [] = Some stk \<and>
           currentStore (run ops s) = top stk \<and>
           recording (trace (run ops s)) = stk \<and>
           attributed (run ops s) = currentStore (run ops s)"
proof -
  from assms(2) obtain stk where stk: "nested_run (map usage (stores s)) ops [] = Some stk"
    by (auto simp: nested_run_append split: option.splits)
  from coupled_run [OF fresh_coupled [OF assms(1)] stk]
  have c: "coupled (run ops s) stk" .
  then have "currentStore (run ops s) = top stk" "recording (trace (run ops s)) = stk"
    by (simp_all add: coupled_def)
  with stk coupled_attributed [OF c] show ?thesis by simp
qed

text \<open>
  A bare component (store 0) calls a managed hook (store 1), which calls a bare hook
  (store 2, folded into store 1). Inside store 2 the reads go to store 1; after the two
  hooks have finished they go to store 0 again.
\<close>

theorem reads_attributed_to_register_scope_witness:
  "fresh (run [Create UNMANAGED, Create MANAGED_HOOK, Create UNMANAGED] init) \<and>
   nested_run [UNMANAGED, MANAGED_HOOK, UNMANAGED]
     ([Start 0, Start 1, Start 2] @ [Finish 2, Finish 1, Finish 0]) [] = Some [] \<and>
   nested_run [UNMANAGED, MANAGED_HOOK, UNMANAGED]
     ([Start 0, Start 1, Start 2, Finish 2, Finish 1] @ [Finish 0]) [] = Some [] \<and>
   attributed (run [Start 0, Start 1, Start 2]
     (run [Create UNMANAGED, Create MANAGED_HOOK, Create UNMANAGED] init)) = Some 1 \<and>
   currentStore (run [Start 0, Start 1, Start 2]
     (run [Create UNMANAGED, Create MANAGED_HOOK, Create UNMANAGED] init)) = Some 1 \<and>
   attributed (run [Start 0, Start 1, Start 2, Finish 2, Finish 1]
     (run [Create UNMANAGED, Create MANAGED_HOOK, Create UNMANAGED] init)) = Some 0 \<and>
   currentStore (run [Start 0, Start 1, Start 2, Finish 2, Finish 1]
     (run [Create UNMANAGED, Create MANAGED_HOOK, Create UNMANAGED] init)) = Some 0"
proof -
  let ?s = "run [Create UNMANAGED, Create MANAGED_HOOK, Create UNMANAGED] init"
  let ?m = "[UNMANAGED, MANAGED_HOOK, UNMANAGED]"
  let ?a = "[Start 0, Start 1, Start 2]" and ?a' = "[Finish 2, Finish 1, Finish 0]"
  let ?b = "[Start 0, Start 1, Start 2, Finish 2, Finish 1]" and ?b' = "[Finish 0]"
  have fr: "fresh ?s" by (simp add: fresh_def recording_def runtime_eval)
  have m: "map usage (stores ?s) = ?m" by (simp add: runtime_eval)
  have pa: "nested_run ?m (?a @ ?a') [] = Some []" by simp
  have pb: "nested_run ?m (?b @ ?b') [] = Some []" by simp
  have sa: "nested_run ?m ?a [] = Some [1, 0]" by simp
  have sb: "nested_run ?m ?b [] = Some [0]" by simp
  from reads_attributed_to_register_scope [OF fr, of ?a ?a' "[]"] pa sa
  have a: "currentStore (run ?a ?s) = Some 1" "attributed (run ?a ?s) = Some 1"
    unfolding m by (auto simp: top_def simp del: run.simps nested_run.simps)
  from reads_attributed_to_register_scope [OF fr, of ?b ?b' "[]"] pb sb
  have b: "currentStore (run ?b ?s) = Some 0" "attributed (run ?b ?s) = Some 0"
    unfolding m by (auto simp: top_def simp del: run.simps nested_run.simps)
  show ?thesis using fr pa pb a b by (intro conjI)
qed

section \<open>An unmanaged scope inside a managed one\<close>

text \<open>
  Claim C4. Let an Unmanaged scope \<open>n\<close> start while a ManagedComponent or ManagedHook
  scope is in the register. Then \<open>_start\<close> changes nothing at all: the register, every
  store and the log of external calls are as before, so \<open>n\<close> never begins tracking. And
  the finish of \<open>n\<close>, whether it follows at once or after other operations that do not
  start \<open>n\<close>, changes nothing either: the register stays and no closer is called. Here
  \<open>n\<close> is a scope with no unfinished start of its own when it is started (section 4.1
  of the spec makes a start of a scope that is already started and not finished a caller
  error).
\<close>

theorem unmanaged_inside_managed_folds_in:
  assumes n: "store_at s n = Some this"
    and c: "currentStore s = Some c" "store_at s c = Some cur"
    and u: "usage cur = MANAGED_COMPONENT \<or> usage cur = MANAGED_HOOK" "usage this = UNMANAGED"
  shows "start n s = s \<and>
         (idle this \<longrightarrow>
            f n (start n s) = s \<and>
            (\<forall>ops. Start n \<notin> set ops \<and> (\<forall>u'. UseSignals (Some n) u' \<notin> set ops) \<longrightarrow>
               f n (run ops (start n s)) = run ops (start n s)))"
proof -
  have st: "start n s = s" using n c u by (rule start_fold)
  have later: "f n (run ops s) = run ops s"
    if "idle this" "Start n \<notin> set ops" "\<forall>u'. UseSignals (Some n) u' \<notin> set ops" for ops
  proof -
    have "idle_at s n" using n that(1) by (simp add: idle_at_def)
    then have "idle_at (run ops s) n" using that(2,3) by (rule idle_at_run)
    then show ?thesis by (rule f_idle_at)
  qed
  show ?thesis unfolding st using f_idle [OF n] later by simp
qed

text \<open>
  A bare store started inside a component store and finished, at once and after a
  notification and a subscription.
\<close>

theorem unmanaged_inside_managed_folds_in_witness:
  "currentStore (run [Create MANAGED_COMPONENT, Create UNMANAGED, Start 0] init) = Some 0 \<and>
   run [Create MANAGED_COMPONENT, Create UNMANAGED, Start 0, Start 1] init =
     run [Create MANAGED_COMPONENT, Create UNMANAGED, Start 0] init \<and>
   run [Create MANAGED_COMPONENT, Create UNMANAGED, Start 0, Start 1, Finish 1] init =
     run [Create MANAGED_COMPONENT, Create UNMANAGED, Start 0] init \<and>
   Start 1 \<notin> set [Callback 0, Subscribe 1 5] \<and>
   (\<forall>u'. UseSignals (Some 1) u' \<notin> set [Callback 0, Subscribe 1 5]) \<and>
   f 1 (run [Callback 0, Subscribe 1 5]
     (start 1 (run [Create MANAGED_COMPONENT, Create UNMANAGED, Start 0] init))) =
     run [Callback 0, Subscribe 1 5]
       (start 1 (run [Create MANAGED_COMPONENT, Create UNMANAGED, Start 0] init))"
proof -
  let ?s = "run [Create MANAGED_COMPONENT, Create UNMANAGED, Start 0] init"
  let ?new = "\<lparr>usage = UNMANAGED, version = 0, onChangeNotifyReact = None,
           doRestore = False, prevStore = None, endEffect = None\<rparr>"
  let ?cur = "\<lparr>usage = MANAGED_COMPONENT, version = 0, onChangeNotifyReact = None,
           doRestore = True, prevStore = None, endEffect = Some 0\<rparr>"
  let ?ops = "[Callback 0, Subscribe 1 5]"
  have n: "store_at ?s 1 = Some ?new" by (simp add: runtime_eval)
  have c: "currentStore ?s = Some 0" "store_at ?s 0 = Some ?cur" by (simp_all add: runtime_eval)
  have u: "usage ?cur = MANAGED_COMPONENT \<or> usage ?cur = MANAGED_HOOK" "usage ?new = UNMANAGED"
    by simp_all
  have i: "idle ?new" by (simp add: idle_def)
  have o: "Start 1 \<notin> set ?ops \<and> (\<forall>u'. UseSignals (Some 1) u' \<notin> set ?ops)" by simp
  note a = unmanaged_inside_managed_folds_in [OF n c u]
  note a1 = a [THEN conjunct1]
  note a23 = a [THEN conjunct2, THEN mp, OF i]
  note a2 = a23 [THEN conjunct1]
  note a3 = a23 [THEN conjunct2, THEN spec, of ?ops, THEN mp, OF o]
  have r1: "run [Create MANAGED_COMPONENT, Create UNMANAGED, Start 0, Start 1] init = start 1 ?s"
    by simp
  have r2: "run [Create MANAGED_COMPONENT, Create UNMANAGED, Start 0, Start 1, Finish 1] init
     = f 1 (start 1 ?s)" by simp
  show ?thesis unfolding r1 r2 using c(1) a1 a2 o a3 by (intro conjI) simp_all
qed

section \<open>A synchronous turn and the cleanup microtask\<close>

lemma coupled_cong:
  "stores s' = stores s \<Longrightarrow> currentStore s' = currentStore s \<Longrightarrow>
   recording (trace s') = recording (trace s) \<Longrightarrow> coupled s' stk = coupled s stk"
  by (simp add: coupled_def)

lemma linked_update_book:
  "i < length ss \<Longrightarrow> doRestore st = doRestore (ss ! i) \<Longrightarrow> endEffect st = endEffect (ss ! i) \<Longrightarrow>
   prevStore st = prevStore (ss ! i) \<Longrightarrow> usage st = usage (ss ! i) \<Longrightarrow>
   linked (ss[i := st]) stk = linked ss stk"
  by (induction stk) (auto simp: nth_list_update)

lemma linked_append: "linked ss stk \<Longrightarrow> linked (ss @ xs) stk"
  by (induction stk) (auto simp: nth_append)

lemma coupled_put_book:
  assumes "coupled s stk" and "store_at s i = Some st0"
    and "doRestore st = doRestore st0" "endEffect st = endEffect st0"
    and "prevStore st = prevStore st0" "usage st = usage st0"
  shows "coupled (put_store i st s) stk"
proof -
  from assms(2) have i: "i < length (stores s)" and st0: "stores s ! i = st0"
    by (simp_all add: store_at_SomeD)
  have l: "linked ((stores s)[i := st]) stk = linked (stores s) stk"
    using i assms(3-6) st0 by (intro linked_update_book) simp_all
  have "idle st = idle st0" using assms(3-5) by (simp add: idle_def)
  then show ?thesis
    using assms(1) i st0 l by (auto simp: coupled_def put_store_def nth_list_update)
qed

lemma coupled_emit:
  "recording_step (recording (trace s)) e = recording (trace s) \<Longrightarrow>
   coupled (emit e s) stk = coupled s stk"
  by (rule coupled_cong) simp_all

lemma coupled_subscribe: "coupled s stk \<Longrightarrow> coupled (subscribe i cb s) stk"
  by (cases "store_at s i") (simp_all add: subscribe_def coupled_put_book)

lemma coupled_callback: "coupled s stk \<Longrightarrow> coupled (callback i s) stk"
  by (cases "store_at s i")
     (simp_all add: callback_def Let_def coupled_put_book coupled_emit split: option.splits)

lemma coupled_unsubscribe: "coupled s stk \<Longrightarrow> coupled (unsubscribe i s) stk"
  by (cases "store_at s i") (simp_all add: unsubscribe_def coupled_put_book coupled_emit)

lemma coupled_createEffectStore:
  assumes "coupled s stk"
  shows "coupled (snd (createEffectStore u s)) stk"
proof -
  let ?st = "\<lparr>usage = u, version = 0, onChangeNotifyReact = None,
              doRestore = False, prevStore = None, endEffect = None\<rparr>"
  let ?t = "s\<lparr>stores := stores s @ [?st]\<rparr>"
  have "coupled ?t stk"
    using assms by (auto simp: coupled_def linked_append nth_append idle_def less_Suc_eq)
  then have "coupled (emit (EffectCreate (length (stores s))) ?t) stk"
    by (simp add: coupled_emit)
  then show ?thesis by (simp add: createEffectStore_def Let_def)
qed

lemma coupled_ensureFinalCleanup [simp]: "coupled (ensureFinalCleanup s) stk = coupled s stk"
  by (rule coupled_cong) (simp_all add: ensureFinalCleanup_def)

lemma usage_subscribe [simp]: "map usage (stores (subscribe i cb s)) = map usage (stores s)"
  by (auto simp: subscribe_def store_at_def put_store_def map_update list_update_same_conv
      split: option.splits)

lemma usage_callback [simp]: "map usage (stores (callback i s)) = map usage (stores s)"
  by (auto simp: callback_def Let_def store_at_def put_store_def emit_def map_update
      list_update_same_conv split: option.splits)

lemma usage_unsubscribe [simp]: "map usage (stores (unsubscribe i s)) = map usage (stores s)"
  by (auto simp: unsubscribe_def store_at_def put_store_def emit_def map_update
      list_update_same_conv split: option.splits)

lemma usage_createEffectStore [simp]:
  "map usage (stores (snd (createEffectStore u s))) = map usage (stores s) @ [u]"
  by (simp add: createEffectStore_def Let_def)

lemma usage_ensureFinalCleanup [simp]:
  "stores (ensureFinalCleanup s) = stores s"
  by (simp add: ensureFinalCleanup_def)

lemma coupled_useSignals_None:
  assumes c: "coupled s stk"
    and p: "nested_start (map usage (stores s) @ [u]) (length (stores s)) stk = Some stk'"
  shows "coupled (snd (useSignals None u s)) stk'"
    and "map usage (stores (snd (useSignals None u s))) = map usage (stores s) @ [u]"
proof -
  let ?t = "emit (SyncExternalStore (length (stores s)))
              (snd (createEffectStore u (ensureFinalCleanup s)))"
  have m: "map usage (stores ?t) = map usage (stores s) @ [u]" by simp
  have "coupled (snd (createEffectStore u (ensureFinalCleanup s))) stk"
    by (rule coupled_createEffectStore) (simp add: c)
  then have ct: "coupled ?t stk" by (simp add: coupled_emit)
  from p m have "nested_start (map usage (stores ?t)) (length (stores s)) stk = Some stk'"
    by simp
  from coupled_start [OF ct this]
  show "coupled (snd (useSignals None u s)) stk'" by (simp add: useSignals_None)
  show "map usage (stores (snd (useSignals None u s))) = map usage (stores s) @ [u]"
    by (simp add: useSignals_None)
qed

lemma coupled_useSignals_Some:
  assumes c: "coupled s stk"
    and p: "nested_start (map usage (stores s)) i stk = Some stk'"
  shows "coupled (snd (useSignals (Some i) u s)) stk'"
    and "map usage (stores (snd (useSignals (Some i) u s))) = map usage (stores s)"
proof -
  let ?t = "emit (SyncExternalStore i) (ensureFinalCleanup s)"
  have ct: "coupled ?t stk" using c by (simp add: coupled_emit)
  from p have "nested_start (map usage (stores ?t)) i stk = Some stk'" by simp
  from coupled_start [OF ct this]
  show "coupled (snd (useSignals (Some i) u s)) stk'" by (simp add: useSignals_Some)
  show "map usage (stores (snd (useSignals (Some i) u s))) = map usage (stores s)"
    by (simp add: useSignals_Some)
qed

lemma turn_step_coupled:
  assumes c: "coupled s stk"
    and t: "turn_step x (map usage (stores s), stk) = Some (modes', stk')"
  shows "coupled (step x s) stk' \<and> map usage (stores (step x s)) = modes'"
proof (cases x)
  case (Create u)
  with c t show ?thesis by (auto simp: coupled_createEffectStore)
next
  case (Subscribe i cb)
  with c t show ?thesis by (auto simp: coupled_subscribe)
next
  case (Unsubscribe i)
  with c t show ?thesis by (auto simp: coupled_unsubscribe)
next
  case (Callback i)
  with c t show ?thesis by (auto simp: coupled_callback)
next
  case (Start n)
  with c t show ?thesis by (auto simp: coupled_start)
next
  case (Finish n)
  with c t show ?thesis by (auto simp: coupled_finish)
next
  case (UseSignals r u)
  show ?thesis
  proof (cases r)
    case None
    with t UseSignals have
      "nested_start (map usage (stores s) @ [u]) (length (stores s)) stk = Some stk'"
      and "modes' = map usage (stores s) @ [u]" by auto
    with coupled_useSignals_None [OF c, of u stk'] UseSignals None show ?thesis by simp
  next
    case (Some i)
    with t UseSignals have "nested_start (map usage (stores s)) i stk = Some stk'"
      and "modes' = map usage (stores s)" by auto
    with coupled_useSignals_Some [OF c, of i stk' u] UseSignals Some show ?thesis by simp
  qed
next
  case Microtask
  with t show ?thesis by simp
qed

lemma turn_run_coupled:
  assumes "coupled s stk"
    and "turn_run ops (map usage (stores s), stk) = Some (modes', stk')"
  shows "coupled (run ops s) stk' \<and> map usage (stores (run ops s)) = modes'"
  using assms
proof (induction ops arbitrary: s stk)
  case Nil
  then show ?case by simp
next
  case (Cons x xs)
  from Cons.prems(2) obtain m1 stk1 where
    s1: "turn_step x (map usage (stores s), stk) = Some (m1, stk1)"
    and r: "turn_run xs (m1, stk1) = Some (modes', stk')"
    by (auto split: option.splits)
  from turn_step_coupled [OF Cons.prems(1) s1]
  have c1: "coupled (step x s) stk1" and m: "map usage (stores (step x s)) = m1" by simp_all
  from Cons.IH [OF c1] r m show ?case by simp
qed

text \<open>Once armed, the microtask stays armed, and queued once, until it runs.\<close>

lemma armed_step:
  assumes "finalCleanup s" and "x \<noteq> Microtask"
  shows "finalCleanup (step x s) \<and> microtasks (step x s) = microtasks s"
  using assms by (cases x) (simp_all add: reaper_useSignals)

lemma turn_step_not_Microtask: "turn_step x c \<noteq> None \<Longrightarrow> x \<noteq> Microtask"
  by (cases c) auto

lemma quiet_not_Microtask: "quiet x \<Longrightarrow> x \<noteq> Microtask"
  by auto

lemma armed_run:
  assumes "finalCleanup s" and "Microtask \<notin> set ops"
  shows "finalCleanup (run ops s) \<and> microtasks (run ops s) = microtasks s"
  using assms
proof (induction ops arbitrary: s)
  case Nil
  then show ?case by simp
next
  case (Cons x xs)
  from Cons.prems have x: "x \<noteq> Microtask" and xs: "Microtask \<notin> set xs" by auto
  from armed_step [OF Cons.prems(1) x] Cons.IH [OF _ xs] show ?case by simp
qed

lemma turn_run_no_Microtask: "turn_run ops c \<noteq> None \<Longrightarrow> Microtask \<notin> set ops"
proof (induction ops arbitrary: c)
  case Nil
  then show ?case by simp
next
  case (Cons x xs)
  from Cons.prems obtain c' where s: "turn_step x c = Some c'" and r: "turn_run xs c' \<noteq> None"
    by (auto split: option.splits)
  from s have "x \<noteq> Microtask" by (intro turn_step_not_Microtask [of x c]) simp
  with Cons.IH [OF r] show ?case by simp
qed

lemma quiet_no_Microtask: "list_all quiet ops \<Longrightarrow> Microtask \<notin> set ops"
  by (auto simp: list_all_iff dest: quiet_not_Microtask)

text \<open>Quiet operations leave the register and the restore bookkeeping of every store.\<close>

lemma quiet_step:
  assumes "quiet x"
  shows "currentStore (step x s) = currentStore s"
    and "store_at s n = Some st \<Longrightarrow>
         \<exists>st'. store_at (step x s) n = Some st' \<and> doRestore st' = doRestore st \<and>
               prevStore st' = prevStore st"
proof -
  show "currentStore (step x s) = currentStore s"
    using assms
    by (cases x)
       (simp_all add: createEffectStore_def subscribe_def unsubscribe_def callback_def Let_def
          split: option.splits)
  assume n: "store_at s n = Some st"
  show "\<exists>st'. store_at (step x s) n = Some st' \<and> doRestore st' = doRestore st \<and>
               prevStore st' = prevStore st"
  proof (cases x)
    case (Create u)
    then show ?thesis using n by (simp add: store_at_createEffectStore)
  next
    case (Subscribe i cb)
    then show ?thesis using n
      by (auto simp: subscribe_def store_at_def put_store_def nth_list_update
          split: option.splits if_splits)
  next
    case (Unsubscribe i)
    then show ?thesis using n
      by (auto simp: unsubscribe_def store_at_def put_store_def emit_def nth_list_update
          split: option.splits if_splits)
  next
    case (Callback i)
    then show ?thesis using n
      by (auto simp: callback_def Let_def store_at_def put_store_def emit_def nth_list_update
          split: option.splits if_splits)
  qed (use assms in simp_all)
qed

lemma quiet_run:
  assumes "list_all quiet ops" and "store_at s n = Some st"
  shows "currentStore (run ops s) = currentStore s \<and>
         (\<exists>st'. store_at (run ops s) n = Some st' \<and> doRestore st' = doRestore st \<and>
               prevStore st' = prevStore st)"
  using assms
proof (induction ops arbitrary: s st)
  case Nil
  then show ?case by simp
next
  case (Cons x xs)
  from Cons.prems(1) have q: "quiet x" and qs: "list_all quiet xs" by simp_all
  from quiet_step(2) [OF q Cons.prems(2)]
  obtain st1 where s1: "store_at (step x s) n = Some st1"
    and b: "doRestore st1 = doRestore st" "prevStore st1 = prevStore st" by blast
  from Cons.IH [OF qs s1] quiet_step(1) [OF q, of s] b show ?case by simp
qed

text \<open>What the microtask does to the register.\<close>

lemma run_microtask_unfold:
  "0 < microtasks s \<Longrightarrow>
   run_microtask s =
     (case currentStore s of
        None \<Rightarrow> s\<lparr>microtasks := microtasks s - 1, finalCleanup := False\<rparr>
      | Some c \<Rightarrow> f c (s\<lparr>microtasks := microtasks s - 1, finalCleanup := False\<rparr>))"
  by (cases "currentStore s") (simp_all add: run_microtask_def cleanup_callback_unfold)

lemma drain_register:
  assumes "0 < microtasks s" and "currentStore s = Some c" and "store_at s c = Some st"
  shows "currentStore (run_microtask s) = (if doRestore st then prevStore st else Some c)"
proof -
  let ?t = "s\<lparr>microtasks := microtasks s - 1, finalCleanup := False\<rparr>"
  have "store_at ?t c = store_at s c" by (rule store_at_cong_stores) simp
  with assms(3) have st: "store_at ?t c = Some st" by simp
  have "run_microtask s = f c ?t"
    using assms(1,2) by (simp add: run_microtask_unfold)
  then show ?thesis using f_facts(1) [OF st] assms(2) by simp
qed

lemma drain_coupled:
  assumes "coupled s stk" and "0 < microtasks s"
  shows "currentStore (run_microtask s) = top (tl stk)"
proof (cases stk)
  case Nil
  with assms(1) have "currentStore s = None" by (simp add: coupled_def top_def)
  then show ?thesis using assms(2) Nil by (simp add: run_microtask_unfold top_def)
next
  case (Cons c rest)
  with assms(1) have c: "currentStore s = Some c" and a: "c < length (stores s)"
    and b: "doRestore (stores s ! c)" "prevStore (stores s ! c) = top rest"
    by (simp_all add: coupled_def top_def)
  from a have "store_at s c = Some (stores s ! c)" by (simp add: store_at_def)
  from drain_register [OF assms(2) c this] b Cons show ?thesis by simp
qed

lemma top_short: "length stk \<le> 1 \<Longrightarrow> top (tl stk) = None"
  by (cases stk) (simp_all add: top_def)

lemma useSignals_fresh:
  assumes "fresh s" and "r = None \<or> (\<exists>i. r = Some i \<and> i < length (stores s))"
  shows "coupled (snd (useSignals r u s)) [fst (useSignals r u s)]"
proof (cases r)
  case None
  have "nested_start (map usage (stores s) @ [u]) (length (stores s)) [] =
      Some [length (stores s)]" by simp
  from coupled_useSignals_None(1) [OF fresh_coupled [OF assms(1)] this]
  show ?thesis by (simp add: None useSignals_None)
next
  case (Some i)
  with assms(2) have "nested_start (map usage (stores s)) i [] = Some [i]" by simp
  from coupled_useSignals_Some(1) [OF fresh_coupled [OF assms(1)] this, of u]
  show ?thesis by (simp add: Some useSignals_Some)
qed

lemma dangling_scope_quiet:
  assumes e: "currentStore s = None" and ok: "reaper_ok s"
    and r: "r = None \<or> (\<exists>i. r = Some i \<and> i < length (stores s))"
    and q: "list_all quiet qs"
  shows "currentStore (run qs (snd (useSignals r u s))) = Some (fst (useSignals r u s)) \<and>
         currentStore (run_microtask (run qs (snd (useSignals r u s)))) = None \<and>
         \<not> finalCleanup (run_microtask (run qs (snd (useSignals r u s)))) \<and>
         microtasks (run_microtask (run qs (snd (useSignals r u s)))) = 0"
proof -
  let ?n = "fst (useSignals r u s)" and ?s1 = "snd (useSignals r u s)"
  from useSignals_empty_register [OF e r, of u]
  obtain st where c: "currentStore ?s1 = Some ?n" and st: "store_at ?s1 ?n = Some st"
    and d: "doRestore st" "prevStore st = None" by blast
  from quiet_run [OF q st] c
  obtain st' where c': "currentStore (run qs ?s1) = Some ?n"
    and st': "store_at (run qs ?s1) ?n = Some st'" and d': "doRestore st'" "prevStore st' = None"
    using d by auto
  have a1: "finalCleanup ?s1" by (rule reaper_useSignals)
  have m1: "microtasks ?s1 = 1"
    using ok by (simp add: reaper_useSignals reaper_ok_def split: if_splits)
  from armed_run [OF a1 quiet_no_Microtask [OF q]] m1
  have m: "microtasks (run qs ?s1) = 1" by simp
  then have p: "0 < microtasks (run qs ?s1)" by simp
  have "currentStore (run_microtask (run qs ?s1)) = None"
    using drain_register [OF p c' st'] d' by simp
  moreover have "\<not> finalCleanup (run_microtask (run qs ?s1))"
    using p by (rule reaper_run_microtask)
  moreover have "microtasks (run_microtask (run qs ?s1)) = 0"
    using m by (simp add: reaper_run_microtask)
  ultimately show ?thesis using c' by simp
qed

lemma dangling_scope_turn:
  assumes fr: "fresh s" and ok: "reaper_ok s"
    and r: "r = None \<or> (\<exists>i. r = Some i \<and> i < length (stores s))"
    and t: "turn_run ts (map usage (stores (snd (useSignals r u s))), [fst (useSignals r u s)])
              = Some (modes', stk')"
  shows "currentStore (run ts (snd (useSignals r u s))) = top stk' \<and>
         currentStore (run_microtask (run ts (snd (useSignals r u s)))) = top (tl stk') \<and>
         \<not> finalCleanup (run_microtask (run ts (snd (useSignals r u s)))) \<and>
         microtasks (run_microtask (run ts (snd (useSignals r u s)))) = 0"
proof -
  let ?n = "fst (useSignals r u s)" and ?s1 = "snd (useSignals r u s)"
  have c1: "coupled ?s1 [?n]" using fr r by (rule useSignals_fresh)
  from turn_run_coupled [OF c1 t] have c2: "coupled (run ts ?s1) stk'" by simp
  have a1: "finalCleanup ?s1" by (rule reaper_useSignals)
  have m1: "microtasks ?s1 = 1"
    using ok by (simp add: reaper_useSignals reaper_ok_def split: if_splits)
  have "Microtask \<notin> set ts"
    by (rule turn_run_no_Microtask [where c = "(map usage (stores ?s1), [?n])"]) (simp add: t)
  from armed_run [OF a1 this] m1 have m: "microtasks (run ts ?s1) = 1" by simp
  then have p: "0 < microtasks (run ts ?s1)" by simp
  have "currentStore (run ts ?s1) = top stk'" using c2 by (simp add: coupled_def)
  moreover have "currentStore (run_microtask (run ts ?s1)) = top (tl stk')"
    using c2 p by (rule drain_coupled)
  moreover have "\<not> finalCleanup (run_microtask (run ts ?s1))"
    using p by (rule reaper_run_microtask)
  moreover have "microtasks (run_microtask (run ts ?s1)) = 0"
    using m by (simp add: reaper_run_microtask)
  ultimately show ?thesis by simp
qed

text \<open>
  Claim C5, as stated: the cleanup microtask is armed by the start of an Unmanaged scope
  and rearmed only by a later Unmanaged start, and an Unmanaged scope acquired with the
  register empty and never finished leaves the register empty once the microtask has run.
  It is \<open>useSignals\<close> that arms the microtask, before it looks at the usage mode: the
  first \<open>useSignals\<close> of a ManagedComponent scope queues it, and after it has run a
  \<open>useSignals\<close> of a ManagedHook scope queues it again. And the microtask finishes one
  scope only: when a ManagedHook scope acquired inside the Unmanaged one is not finished
  either, the microtask finishes that one and puts the Unmanaged scope, store 0, back in
  the register, with the queue empty.
\<close>

theorem cleanup_microtask_armed_by_managed_scope:
  "\<not> finalCleanup init \<and> microtasks init = 0 \<and>
   finalCleanup (snd (useSignals None MANAGED_COMPONENT init)) \<and>
   microtasks (snd (useSignals None MANAGED_COMPONENT init)) = 1 \<and>
   \<not> finalCleanup (run [UseSignals None UNMANAGED, Microtask] init) \<and>
   microtasks (run [UseSignals None UNMANAGED, Microtask] init) = 0 \<and>
   finalCleanup (run [UseSignals None UNMANAGED, Microtask, UseSignals None MANAGED_HOOK] init) \<and>
   microtasks (run [UseSignals None UNMANAGED, Microtask, UseSignals None MANAGED_HOOK] init) = 1 \<and>
   currentStore init = None \<and>
   currentStore (run [UseSignals None UNMANAGED] init) = Some 0 \<and>
   currentStore (run [UseSignals None UNMANAGED, UseSignals None MANAGED_HOOK, Microtask] init)
     = Some 0 \<and>
   microtasks (run [UseSignals None UNMANAGED, UseSignals None MANAGED_HOOK, Microtask] init) = 0"
  by (simp add: runtime_eval split_beta)

text \<open>
  Claim C5, amended. Every call of \<open>useSignals\<close>, of whatever usage mode, leaves the
  cleanup microtask armed, queueing it when it was not armed and queueing nothing when it
  was; no other operation arms it. In every run from the initial state at most one
  cleanup callback waits in the queue, and one waits exactly when \<open>finalCleanup\<close> is set.
  When the microtask runs it disarms and calls \<open>f\<close> once, on the scope in the register,
  if there is one. So take an Unmanaged scope that \<open>useSignals\<close> acquires with the
  register empty and that is never finished (its usage mode plays no part in what
  follows). (a) Whatever stores are created, subscribed, unsubscribed and notified before
  the microtask runs, the scope is still in the register then, and the microtask leaves
  the register empty, itself disarmed and the queue empty. (b) When no scope at all was
  started at the acquisition, and stores are created, subscribed, unsubscribed and
  notified and scopes are started (directly or by \<open>useSignals\<close>) and finished in
  between under the discipline of section 4.2, the microtask pops the stack of tracking
  scopes once: the register is empty after it whenever at most one scope was still
  tracking when it ran, and holds the scope below the innermost one otherwise.
\<close>

theorem cleanup_microtask_armed_by_useSignals:
  "(finalCleanup (snd (useSignals r u s)) \<and>
    microtasks (snd (useSignals r u s)) =
      (if finalCleanup s then microtasks s else Suc (microtasks s))) \<and>
   ((\<forall>r' u'. x \<noteq> UseSignals r' u') \<longrightarrow>
      microtasks (step x s) \<le> microtasks s \<and> (finalCleanup (step x s) \<longrightarrow> finalCleanup s)) \<and>
   (microtasks (run ops init) \<le> 1 \<and>
    finalCleanup (run ops init) = (microtasks (run ops init) = 1)) \<and>
   (0 < microtasks s \<longrightarrow>
      run_microtask s =
        (case currentStore s of
           None \<Rightarrow> s\<lparr>microtasks := microtasks s - 1, finalCleanup := False\<rparr>
         | Some c \<Rightarrow> f c (s\<lparr>microtasks := microtasks s - 1, finalCleanup := False\<rparr>)) \<and>
      \<not> finalCleanup (run_microtask s) \<and>
      microtasks (run_microtask s) = microtasks s - 1) \<and>
   (currentStore s = None \<and> reaper_ok s \<and>
      (r = None \<or> (\<exists>i. r = Some i \<and> i < length (stores s))) \<and> list_all quiet qs \<longrightarrow>
      currentStore (run qs (snd (useSignals r u s))) = Some (fst (useSignals r u s)) \<and>
      currentStore (run_microtask (run qs (snd (useSignals r u s)))) = None \<and>
      \<not> finalCleanup (run_microtask (run qs (snd (useSignals r u s)))) \<and>
      microtasks (run_microtask (run qs (snd (useSignals r u s)))) = 0) \<and>
   (fresh s \<and> reaper_ok s \<and>
      (r = None \<or> (\<exists>i. r = Some i \<and> i < length (stores s))) \<and>
      turn_run ts (map usage (stores (snd (useSignals r u s))), [fst (useSignals r u s)])
        = Some (modes', stk') \<longrightarrow>
      currentStore (run ts (snd (useSignals r u s))) = top stk' \<and>
      currentStore (run_microtask (run ts (snd (useSignals r u s)))) = top (tl stk') \<and>
      (length stk' \<le> 1 \<longrightarrow>
         currentStore (run_microtask (run ts (snd (useSignals r u s)))) = None) \<and>
      \<not> finalCleanup (run_microtask (run ts (snd (useSignals r u s)))) \<and>
      microtasks (run_microtask (run ts (snd (useSignals r u s)))) = 0)"
proof -
  have c1: "finalCleanup (snd (useSignals r u s)) \<and>
    microtasks (snd (useSignals r u s)) =
      (if finalCleanup s then microtasks s else Suc (microtasks s))"
    by (simp add: reaper_useSignals)
  have c2: "(\<forall>r' u'. x \<noteq> UseSignals r' u') \<longrightarrow>
      microtasks (step x s) \<le> microtasks s \<and> (finalCleanup (step x s) \<longrightarrow> finalCleanup s)"
    using step_does_not_arm [of x s] by blast
  have "reaper_ok (run ops init)" by (rule reaper_ok_run [OF reaper_ok_init])
  then have c3: "microtasks (run ops init) \<le> 1 \<and>
    finalCleanup (run ops init) = (microtasks (run ops init) = 1)"
    by (simp add: reaper_ok_def split: if_splits)
  have c4: "0 < microtasks s \<longrightarrow>
      run_microtask s =
        (case currentStore s of
           None \<Rightarrow> s\<lparr>microtasks := microtasks s - 1, finalCleanup := False\<rparr>
         | Some c \<Rightarrow> f c (s\<lparr>microtasks := microtasks s - 1, finalCleanup := False\<rparr>)) \<and>
      \<not> finalCleanup (run_microtask s) \<and>
      microtasks (run_microtask s) = microtasks s - 1"
    using run_microtask_unfold [of s] reaper_run_microtask [of s] by blast
  have c5: "currentStore s = None \<and> reaper_ok s \<and>
      (r = None \<or> (\<exists>i. r = Some i \<and> i < length (stores s))) \<and> list_all quiet qs \<longrightarrow>
      currentStore (run qs (snd (useSignals r u s))) = Some (fst (useSignals r u s)) \<and>
      currentStore (run_microtask (run qs (snd (useSignals r u s)))) = None \<and>
      \<not> finalCleanup (run_microtask (run qs (snd (useSignals r u s)))) \<and>
      microtasks (run_microtask (run qs (snd (useSignals r u s)))) = 0"
    by (intro impI, elim conjE) (rule dangling_scope_quiet)
  have c6: "fresh s \<and> reaper_ok s \<and>
      (r = None \<or> (\<exists>i. r = Some i \<and> i < length (stores s))) \<and>
      turn_run ts (map usage (stores (snd (useSignals r u s))), [fst (useSignals r u s)])
        = Some (modes', stk') \<longrightarrow>
      currentStore (run ts (snd (useSignals r u s))) = top stk' \<and>
      currentStore (run_microtask (run ts (snd (useSignals r u s)))) = top (tl stk') \<and>
      (length stk' \<le> 1 \<longrightarrow>
         currentStore (run_microtask (run ts (snd (useSignals r u s)))) = None) \<and>
      \<not> finalCleanup (run_microtask (run ts (snd (useSignals r u s)))) \<and>
      microtasks (run_microtask (run ts (snd (useSignals r u s)))) = 0"
  proof
    assume a: "fresh s \<and> reaper_ok s \<and>
      (r = None \<or> (\<exists>i. r = Some i \<and> i < length (stores s))) \<and>
      turn_run ts (map usage (stores (snd (useSignals r u s))), [fst (useSignals r u s)])
        = Some (modes', stk')"
    then have fr: "fresh s" and ok: "reaper_ok s"
      and r: "r = None \<or> (\<exists>i. r = Some i \<and> i < length (stores s))"
      and t: "turn_run ts (map usage (stores (snd (useSignals r u s))), [fst (useSignals r u s)])
        = Some (modes', stk')" by simp_all
    note d = dangling_scope_turn [OF fr ok r t]
    from d top_short [of stk'] show
      "currentStore (run ts (snd (useSignals r u s))) = top stk' \<and>
      currentStore (run_microtask (run ts (snd (useSignals r u s)))) = top (tl stk') \<and>
      (length stk' \<le> 1 \<longrightarrow>
         currentStore (run_microtask (run ts (snd (useSignals r u s)))) = None) \<and>
      \<not> finalCleanup (run_microtask (run ts (snd (useSignals r u s)))) \<and>
      microtasks (run_microtask (run ts (snd (useSignals r u s)))) = 0"
      by simp
  qed
  show ?thesis
    by (rule conjI [OF c1 conjI [OF c2 conjI [OF c3 conjI [OF c4 conjI [OF c5 c6]]]]])
qed

text \<open>
  The first \<open>useSignals\<close> of a bare scope, from the initial state. Before the microtask
  runs the scope is subscribed and notified and a store is created; or a managed hook is
  acquired inside it and finished. Either way the register is empty after the microtask.
\<close>

theorem cleanup_microtask_armed_by_useSignals_witness:
  "currentStore init = None \<and> reaper_ok init \<and> fresh init \<and>
   list_all quiet [Subscribe 0 7, Callback 0, Create MANAGED_HOOK] \<and>
   currentStore (run [Subscribe 0 7, Callback 0, Create MANAGED_HOOK]
     (snd (useSignals None UNMANAGED init))) = Some 0 \<and>
   currentStore (run_microtask (run [Subscribe 0 7, Callback 0, Create MANAGED_HOOK]
     (snd (useSignals None UNMANAGED init)))) = None \<and>
   turn_run [UseSignals None MANAGED_HOOK, Subscribe 0 7, Finish 1] ([UNMANAGED], [0]) =
     Some ([UNMANAGED, MANAGED_HOOK], [0]) \<and>
   length [0 :: nat] \<le> 1 \<and>
   currentStore (run [UseSignals None MANAGED_HOOK, Subscribe 0 7, Finish 1]
     (snd (useSignals None UNMANAGED init))) = Some 0 \<and>
   currentStore (run_microtask (run [UseSignals None MANAGED_HOOK, Subscribe 0 7, Finish 1]
     (snd (useSignals None UNMANAGED init)))) = None \<and>
   microtasks (run_microtask (run [UseSignals None MANAGED_HOOK, Subscribe 0 7, Finish 1]
     (snd (useSignals None UNMANAGED init)))) = 0 \<and>
   0 < microtasks (snd (useSignals None UNMANAGED init)) \<and>
   \<not> finalCleanup (run_microtask (snd (useSignals None UNMANAGED init))) \<and>
   (\<forall>r' u'. Finish 0 \<noteq> UseSignals r' u') \<and>
   finalCleanup (step (Finish 0) (snd (useSignals None UNMANAGED init))) \<and>
   finalCleanup (snd (useSignals None UNMANAGED init)) \<and>
   microtasks (step (Finish 0) (snd (useSignals None UNMANAGED init))) \<le> 1"
proof -
  let ?s1 = "snd (useSignals None UNMANAGED init)"
  let ?qs = "[Subscribe 0 7, Callback 0, Create MANAGED_HOOK]"
  let ?ts = "[UseSignals None MANAGED_HOOK, Subscribe 0 7, Finish 1]"
  have e: "currentStore init = None" and ok: "reaper_ok init" and fr: "fresh init"
    by (simp_all add: init_def reaper_ok_def fresh_def recording_def)
  have rv: "None = None \<or> (\<exists>i. (None :: store_ref option) = Some i \<and> i < length (stores init))"
    by simp
  have q: "list_all quiet ?qs" by simp
  have n: "fst (useSignals None UNMANAGED init) = 0" by (simp add: useSignals_None init_def)
  have mu: "map usage (stores ?s1) = [UNMANAGED]" by (simp add: useSignals_None init_def)
  have t0: "turn_run ?ts ([UNMANAGED], [0]) = Some ([UNMANAGED, MANAGED_HOOK], [0])" by simp
  have t: "turn_run ?ts (map usage (stores ?s1), [fst (useSignals None UNMANAGED init)]) =
      Some ([UNMANAGED, MANAGED_HOOK], [0])"
    unfolding mu n by (rule t0)
  have l: "length [0 :: nat] \<le> 1" by simp
  have m: "microtasks ?s1 = 1" "0 < microtasks ?s1" by (simp_all add: reaper_useSignals init_def)
  have x: "\<forall>r' u'. Finish 0 \<noteq> UseSignals r' u'" by simp
  have fx: "finalCleanup (step (Finish 0) ?s1)" by (simp add: reaper_useSignals)
  note a = cleanup_microtask_armed_by_useSignals
    [where s = init and r = None and u = UNMANAGED and x = "Finish 0" and ops = "[]"
       and qs = ?qs and ts = ?ts and modes' = "[UNMANAGED, MANAGED_HOOK]" and stk' = "[0]"]
  note b = cleanup_microtask_armed_by_useSignals
    [where s = ?s1 and r = None and u = UNMANAGED and x = "Finish 0" and ops = "[]"
       and qs = "[]" and ts = "[]" and modes' = "[]" and stk' = "[]"]
  note a5 = a [THEN conjunct2, THEN conjunct2, THEN conjunct2, THEN conjunct2, THEN conjunct1,
    THEN mp, OF conjI [OF e conjI [OF ok conjI [OF rv q]]]]
  note a6 = a [THEN conjunct2, THEN conjunct2, THEN conjunct2, THEN conjunct2, THEN conjunct2,
    THEN mp, OF conjI [OF fr conjI [OF ok conjI [OF rv t]]]]
  note a5a = a5 [THEN conjunct1, unfolded n]
  note a5b = a5 [THEN conjunct2, THEN conjunct1]
  have a6a: "currentStore (run ?ts ?s1) = Some 0"
    using a6 [THEN conjunct1] by (simp only: top_def list.case)
  note a6c = a6 [THEN conjunct2, THEN conjunct2, THEN conjunct1, THEN mp, OF l]
  note a6e = a6 [THEN conjunct2, THEN conjunct2, THEN conjunct2, THEN conjunct2]
  note b2 = b [THEN conjunct2, THEN conjunct1, THEN mp, OF x]
  note b3 = b2 [THEN conjunct2, THEN mp, OF fx]
  from b2 m(1) have b4: "microtasks (step (Finish 0) ?s1) \<le> 1" by (elim conjE) (erule subst)
  note b5 = b [THEN conjunct2, THEN conjunct2, THEN conjunct2, THEN conjunct1, THEN mp, OF m(2),
    THEN conjunct2, THEN conjunct1]
  show ?thesis
    by (intro conjI e ok fr q a5a a5b t0 l a6a a6c a6e m(2) b5 x fx b3 b4)
qed

end
